theory Spec2Isabelle
  imports Complex_Main "HOL-Library.AList"
begin

unbundle bit_operations_syntax

section \<open>The consistent-hashing ring of \<open>src/main.py\<close>\<close>

text \<open>
  The class \<open>ConsistentHashRing\<close> is embedded as a record of its six attributes and one
  HOL function per method. Python integers are \<open>int\<close>; a \<open>str\<close> is a \<open>string\<close>; the
  dictionary \<open>vnode_to_node\<close> (only looked up, stored into and popped from) is a map; the
  dictionary \<open>node_to_vnodes\<close>, whose length and key order the code reads, is an
  association list in insertion order. A method that mutates \<open>self\<close> returns its outcome
  together with the ring it leaves behind, also when it raises. The two \<open>while\<close> loops
  that can run forever are partial functions into \<open>option\<close>: \<open>None\<close> is divergence.
  The methods keep their names, but for \<open>__init__\<close>, which is \<open>construct\<close>, and
  \<open>_find_vnode_index\<close>, which is \<open>find_vnode_index\<close>. The hash function is any function
  from strings to integers, as the constructor accepts any; \<open>default_hash\<close> is one.
\<close>

subsection \<open>Exceptions\<close>

text \<open>
  \<open>DuplicateNode\<close> and \<open>NodeNotFound\<close> are the two \<open>ValueError\<close>s of \<open>add_node\<close> and
  \<open>remove_node\<close>, \<open>EmptyRing\<close> is the \<open>RuntimeError("Ring is empty")\<close>,
  \<open>InvalidConfiguration\<close> the failed \<open>assert\<close> of the constructor; \<open>KeyError\<close> and
  \<open>IndexError\<close> are raised by Python itself on a missing dictionary key and on an index
  out of range.
\<close>

datatype error =
  DuplicateNode | NodeNotFound | EmptyRing | InvalidConfiguration | KeyError | IndexError

subsection \<open>The standard library's \<open>bisect\<close> and list operations\<close>

text \<open>
  \<open>bisect.bisect_left(a, x)\<close>, \<open>bisect.bisect_right(a, x)\<close> and \<open>bisect.insort(a, x)\<close>
  as \<open>Lib/bisect.py\<close> writes them: a binary search between \<open>lo = 0\<close> and \<open>hi = len(a)\<close>,
  whatever the order of \<open>a\<close>; \<open>bisect.insort\<close> is the library's \<open>insort_right\<close>.
\<close>

function bisect_left_loop :: "int list \<Rightarrow> int \<Rightarrow> nat \<Rightarrow> nat \<Rightarrow> nat" where
  "bisect_left_loop a x lo hi =
     (if lo < hi then
        (let mid = (lo + hi) div 2 in
         if a ! mid < x then bisect_left_loop a x (mid + 1) hi
         else bisect_left_loop a x lo mid)
      else lo)"
  by pat_completeness auto
termination
  by (relation "measure (\<lambda>(a, x, lo, hi). hi - lo)") auto

declare bisect_left_loop.simps [simp del]

definition bisect_left :: "int list \<Rightarrow> int \<Rightarrow> nat" where
  "bisect_left a x = bisect_left_loop a x 0 (length a)"

function bisect_right_loop :: "int list \<Rightarrow> int \<Rightarrow> nat \<Rightarrow> nat \<Rightarrow> nat" where
  "bisect_right_loop a x lo hi =
     (if lo < hi then
        (let mid = (lo + hi) div 2 in
         if x < a ! mid then bisect_right_loop a x lo mid
         else bisect_right_loop a x (mid + 1) hi)
      else lo)"
  by pat_completeness auto
termination
  by (relation "measure (\<lambda>(a, x, lo, hi). hi - lo)") auto

declare bisect_right_loop.simps [simp del]

definition bisect_right :: "int list \<Rightarrow> int \<Rightarrow> nat" where
  "bisect_right a x = bisect_right_loop a x 0 (length a)"

text \<open>\<open>a.insert(i, x)\<close> for \<open>0 \<le> i\<close>: before index \<open>i\<close>, at the end when \<open>i \<ge> len(a)\<close>.\<close>

definition list_insert :: "'a list \<Rightarrow> nat \<Rightarrow> 'a \<Rightarrow> 'a list" where
  "list_insert a i x = take i a @ x # drop i a"

text \<open>\<open>a.pop(i)\<close>, used only under the guard \<open>i < len(a)\<close>.\<close>

definition list_pop :: "'a list \<Rightarrow> nat \<Rightarrow> 'a list" where
  "list_pop a i = take i a @ drop (Suc i) a"

definition insort_right :: "int list \<Rightarrow> int \<Rightarrow> int list" where
  "insort_right a x = list_insert a (bisect_right a x) x"

subsection \<open>The ring\<close>

record ring =
  replicas_per_node :: int
  hash :: "string \<Rightarrow> int"
  replication_factor :: int
  positions :: "int list"
  vnode_to_node :: "int \<rightharpoonup> string"
  node_to_vnodes :: "(string \<times> int list) list"

text \<open>\<open>__init__\<close>: the two \<open>assert\<close>s, then the empty ring.\<close>

definition construct :: "int \<Rightarrow> (string \<Rightarrow> int) \<Rightarrow> int \<Rightarrow> error + ring" where
  "construct rpn hash_func rf =
     (if \<not> rpn > 0 then Inl InvalidConfiguration
      else if \<not> rf > 0 then Inl InvalidConfiguration
      else Inr \<lparr>replicas_per_node = rpn, hash = hash_func, replication_factor = rf,
                positions = [], vnode_to_node = Map.empty, node_to_vnodes = []\<rparr>)"

subsection \<open>Node management\<close>

text \<open>The decimal digits of \<open>str(n)\<close> and the virtual-node key \<open>f"{node_id}#{replica_idx}"\<close>.\<close>

fun str_nat :: "nat \<Rightarrow> string" where
  "str_nat n =
     (if n < 10 then [char_of (48 + n)]
      else str_nat (n div 10) @ [char_of (48 + n mod 10)])"

declare str_nat.simps [simp del]

definition vnode_key :: "string \<Rightarrow> nat \<Rightarrow> string" where
  "vnode_key node_id replica_idx = node_id @ ''#'' @ str_nat replica_idx"

text \<open>
  The collision loop \<open>while pos in self.vnode_to_node: pos = (pos + 1) & ((1 << 64) - 1)\<close>.
  It does not return when every position from \<open>0\<close> to \<open>2^64 - 1\<close> is taken.
\<close>

partial_function (option) probe :: "(int \<rightharpoonup> string) \<Rightarrow> int \<Rightarrow> int option" where
  "probe v2n pos =
     (if v2n pos \<noteq> None then probe v2n ((pos + 1) AND (push_bit 64 1 - 1))
      else Some pos)"

text \<open>
  One pass of the body of \<open>for replica_idx in range(self.replicas_per_node)\<close>, on the ring
  and the local list \<open>vnodes\<close>.
\<close>

definition place_replica :: "string \<Rightarrow> nat \<Rightarrow> ring \<times> int list \<Rightarrow> (ring \<times> int list) option" where
  "place_replica node_id replica_idx st =
     (case st of (r, vnodes) \<Rightarrow>
        (case probe (vnode_to_node r) (hash r (vnode_key node_id replica_idx)) of
           None \<Rightarrow> None
         | Some pos \<Rightarrow>
             Some (r\<lparr>positions := insort_right (positions r) pos,
                     vnode_to_node := (vnode_to_node r)(pos \<mapsto> node_id)\<rparr>,
                   vnodes @ [pos])))"

fun add_node_loop :: "string \<Rightarrow> nat list \<Rightarrow> ring \<times> int list \<Rightarrow> (ring \<times> int list) option" where
  "add_node_loop node_id [] st = Some st"
| "add_node_loop node_id (replica_idx # rest) st =
     (case place_replica node_id replica_idx st of
        None \<Rightarrow> None
      | Some st' \<Rightarrow> add_node_loop node_id rest st')"

definition add_node :: "ring \<Rightarrow> string \<Rightarrow> ((error + unit) \<times> ring) option" where
  "add_node r node_id =
     (if map_of (node_to_vnodes r) node_id \<noteq> None then Some (Inl DuplicateNode, r)
      else
        (case add_node_loop node_id [0..<nat (replicas_per_node r)] (r, []) of
           None \<Rightarrow> None
         | Some (r', vnodes) \<Rightarrow>
             Some (Inr (),
                   r'\<lparr>node_to_vnodes := AList.update node_id vnodes (node_to_vnodes r')\<rparr>)))"

text \<open>The body of \<open>for pos in vnodes\<close> in \<open>remove_node\<close>.\<close>

definition remove_vnode :: "int \<Rightarrow> ring \<Rightarrow> ring" where
  "remove_vnode pos r =
     (let idx = bisect_left (positions r) pos;
          ps = (if idx < length (positions r) \<and> positions r ! idx = pos
                then list_pop (positions r) idx else positions r)
      in r\<lparr>positions := ps, vnode_to_node := (vnode_to_node r)(pos := None)\<rparr>)"

text \<open>
  \<open>remove_node\<close> pops the entry of \<open>node_to_vnodes\<close> first and tests what it got afterwards;
  the model keeps that order.
\<close>

definition remove_node :: "ring \<Rightarrow> string \<Rightarrow> (error + unit) \<times> ring" where
  "remove_node r node_id =
     (let vnodes = map_of (node_to_vnodes r) node_id;
          r1 = r\<lparr>node_to_vnodes := AList.delete node_id (node_to_vnodes r)\<rparr>
      in case vnodes of
           None \<Rightarrow> (Inl NodeNotFound, r1)
         | Some vs \<Rightarrow> (Inr (), fold remove_vnode vs r1))"

definition list_nodes :: "ring \<Rightarrow> string list" where
  "list_nodes r = map fst (node_to_vnodes r)"

subsection \<open>Key placement\<close>

definition find_vnode_index :: "ring \<Rightarrow> int \<Rightarrow> error + nat" where
  "find_vnode_index r key_hash =
     (if positions r = [] then Inl EmptyRing
      else
        (let idx = bisect_left (positions r) key_hash
         in Inr (if idx = length (positions r) then 0 else idx)))"

text \<open>
  The \<open>while\<close> loop of \<open>get_nodes_for_key\<close> on its three locals \<open>idx\<close>, \<open>chosen\<close> and
  \<open>seen\<close>. \<open>self.positions[idx]\<close> raises \<open>IndexError\<close> out of range and
  \<open>self.vnode_to_node[pos]\<close> raises \<open>KeyError\<close> on a missing position.
\<close>

partial_function (option) get_nodes_loop ::
  "ring \<Rightarrow> nat \<Rightarrow> string list \<Rightarrow> string set \<Rightarrow> (error + string list) option" where
  "get_nodes_loop r idx chosen seen =
     (if int (length chosen) < replication_factor r \<and> card seen < length (node_to_vnodes r)
      then
        (if idx < length (positions r) then
           (case vnode_to_node r (positions r ! idx) of
              None \<Rightarrow> Some (Inl KeyError)
            | Some node_id \<Rightarrow>
                (if node_id \<notin> seen
                 then get_nodes_loop r ((idx + 1) mod length (positions r))
                        (chosen @ [node_id]) (insert node_id seen)
                 else get_nodes_loop r ((idx + 1) mod length (positions r)) chosen seen))
         else Some (Inl IndexError))
      else Some (Inr chosen))"

definition get_nodes_for_key :: "ring \<Rightarrow> string \<Rightarrow> (error + string list) option" where
  "get_nodes_for_key r key =
     (if positions r = [] then Some (Inl EmptyRing)
      else
        (case find_vnode_index r (hash r key) of
           Inl e \<Rightarrow> Some (Inl e)
         | Inr idx \<Rightarrow> get_nodes_loop r idx [] {}))"

text \<open>\<open>self.get_nodes_for_key(key)[0]\<close>: an empty result raises \<open>IndexError\<close>.\<close>

definition get_primary_node :: "ring \<Rightarrow> string \<Rightarrow> (error + string) option" where
  "get_primary_node r key =
     (case get_nodes_for_key r key of
        None \<Rightarrow> None
      | Some (Inl e) \<Rightarrow> Some (Inl e)
      | Some (Inr []) \<Rightarrow> Some (Inl IndexError)
      | Some (Inr (node # _)) \<Rightarrow> Some (Inr node))"

subsection \<open>Simulation helpers\<close>

text \<open>
  \<open>dist[node] += 1\<close> on a \<open>Counter\<close>: a missing key counts as \<open>0\<close>. The local \<open>dist\<close> is
  written \<open>cnt\<close>, and \<open>total\<close> below \<open>tot\<close>: both names are taken in HOL.
\<close>

definition counter_incr :: "(string \<times> nat) list \<Rightarrow> string \<Rightarrow> (string \<times> nat) list" where
  "counter_incr cnt node =
     AList.update node ((case map_of cnt node of None \<Rightarrow> 0 | Some c \<Rightarrow> c) + 1) cnt"

fun key_distribution_loop ::
  "ring \<Rightarrow> string list \<Rightarrow> (string \<times> nat) list \<Rightarrow> (error + (string \<times> nat) list) option" where
  "key_distribution_loop r [] cnt = Some (Inr cnt)"
| "key_distribution_loop r (k # ks) cnt =
     (case get_primary_node r k of
        None \<Rightarrow> None
      | Some (Inl e) \<Rightarrow> Some (Inl e)
      | Some (Inr node) \<Rightarrow> key_distribution_loop r ks (counter_incr cnt node))"

definition key_distribution :: "ring \<Rightarrow> string list \<Rightarrow> (error + (string \<times> nat) list) option" where
  "key_distribution r keys = key_distribution_loop r keys []"

text \<open>
  The loop of \<open>moved_keys_ratio\<close> on its locals \<open>moved\<close> and \<open>total\<close>;
  \<open>old_mapping.get(k) != new_node\<close> holds when \<open>k\<close> has no entry.
\<close>

fun moved_keys_loop ::
  "ring \<Rightarrow> string list \<Rightarrow> (string \<rightharpoonup> string) \<Rightarrow> nat \<times> nat \<Rightarrow> (error + nat \<times> nat) option" where
  "moved_keys_loop r [] old_mapping (moved, tot) = Some (Inr (moved, tot))"
| "moved_keys_loop r (k # ks) old_mapping (moved, tot) =
     (case get_primary_node r k of
        None \<Rightarrow> None
      | Some (Inl e) \<Rightarrow> Some (Inl e)
      | Some (Inr new_node) \<Rightarrow>
          moved_keys_loop r ks old_mapping
            (if old_mapping k \<noteq> Some new_node then moved + 1 else moved, tot + 1))"

text \<open>
  \<open>moved / total if total else 0.0\<close>. The quotient is the exact one; Python returns the
  double nearest to it.
\<close>

definition moved_keys_ratio ::
  "ring \<Rightarrow> string list \<Rightarrow> (string \<rightharpoonup> string) \<Rightarrow> (error + real) option" where
  "moved_keys_ratio r keys old_mapping =
     (case moved_keys_loop r keys old_mapping (0, 0) of
        None \<Rightarrow> None
      | Some (Inl e) \<Rightarrow> Some (Inl e)
      | Some (Inr (moved, tot)) \<Rightarrow>
          Some (Inr (if tot \<noteq> 0 then real moved / real tot else 0)))"

text \<open>
  When \<open>moved_keys_ratio\<close> counts a key: \<open>old_mapping\<close> has no entry for it, or an entry
  other than the key's primary node.
\<close>

definition key_moved :: "ring \<Rightarrow> (string \<rightharpoonup> string) \<Rightarrow> string \<Rightarrow> bool" where
  "key_moved r old_mapping k \<longleftrightarrow>
     (case old_mapping k of
        None \<Rightarrow> True
      | Some old_node \<Rightarrow> get_primary_node r k \<noteq> Some (Inr old_node))"

subsection \<open>Reachable rings and the structural invariant\<close>

text \<open>
  The rings a program can hold: what the constructor returns, and what \<open>add_node\<close> and
  \<open>remove_node\<close> leave behind, whether they succeed or raise. The queries do not touch
  the ring.
\<close>

inductive reachable :: "ring \<Rightarrow> bool" where
  init: "construct rpn hash_func rf = Inr r \<Longrightarrow> reachable r"
| add: "reachable r \<Longrightarrow> add_node r node_id = Some (res, r') \<Longrightarrow> reachable r'"
| remove: "reachable r \<Longrightarrow> remove_node r node_id = (res, r') \<Longrightarrow> reachable r'"

text \<open>
  The structural invariant of the data model: \<open>positions\<close> strictly increasing and free of
  duplicates, with the keys of \<open>vnode_to_node\<close> as its elements; the lists of
  \<open>node_to_vnodes\<close> together hold the same elements; the registered nodes are the values
  of \<open>vnode_to_node\<close>.
\<close>

definition ring_inv :: "ring \<Rightarrow> bool" where
  "ring_inv r \<longleftrightarrow>
     sorted_wrt (<) (positions r) \<and> distinct (positions r) \<and>
     set (positions r) = dom (vnode_to_node r) \<and>
     (\<Union>vs\<in>snd ` set (node_to_vnodes r). set vs) = set (positions r) \<and>
     (\<forall>n. n \<in> fst ` set (node_to_vnodes r) \<longleftrightarrow> n \<in> ran (vnode_to_node r))"

text \<open>
  What the proofs carry along: besides the order of \<open>positions\<close> and its agreement with
  \<open>vnode_to_node\<close>, every node is registered once, owns at least one position, and
  \<open>vnode_to_node\<close> and \<open>node_to_vnodes\<close> say the same about who owns which position.
\<close>

definition ring_wf :: "ring \<Rightarrow> bool" where
  "ring_wf r \<longleftrightarrow>
     0 < replicas_per_node r \<and> 0 < replication_factor r \<and>
     sorted_wrt (<) (positions r) \<and>
     set (positions r) = dom (vnode_to_node r) \<and>
     distinct (map fst (node_to_vnodes r)) \<and>
     (\<forall>n vs. map_of (node_to_vnodes r) n = Some vs \<longrightarrow>
        vs \<noteq> [] \<and> (\<forall>p\<in>set vs. vnode_to_node r p = Some n)) \<and>
     (\<forall>p n. vnode_to_node r p = Some n \<longrightarrow>
        (\<exists>vs. map_of (node_to_vnodes r) n = Some vs \<and> p \<in> set vs))"

subsection \<open>Linear probing, as a sequence\<close>

text \<open>
  The candidates of linear probing from \<open>h\<close>: \<open>h\<close> itself, then one more each time,
  modulo \<open>2^64\<close>. \<open>first_free occ h p\<close>: \<open>p\<close> is the first candidate outside \<open>occ\<close>.
\<close>

fun probe_seq :: "int \<Rightarrow> nat \<Rightarrow> int" where
  "probe_seq h 0 = h"
| "probe_seq h (Suc k) = probe_seq ((h + 1) mod 2 ^ 64) k"

definition first_free :: "int set \<Rightarrow> int \<Rightarrow> int \<Rightarrow> bool" where
  "first_free occ h p \<longleftrightarrow>
     (\<exists>k. p = probe_seq h k \<and> p \<notin> occ \<and> (\<forall>j<k. probe_seq h j \<in> occ))"

subsection \<open>Example rings\<close>

text \<open>
  A stand-in hash function, the length of the string, and three rings built with it:
  the empty ring, the ring after \<open>add_node("AB")\<close>, and the ring after \<open>add_node("A")\<close>
  on top. Both replicas of \<open>"AB"\<close> hash to 4, so the second one is placed at 5; both
  replicas of \<open>"A"\<close> hash to 3, so the second one is probed past 3, 4 and 5 to 6.
\<close>

definition len_hash :: "string \<Rightarrow> int" where
  "len_hash s = int (length s)"

definition ring0 :: ring where
  "ring0 = \<lparr>replicas_per_node = 2, hash = len_hash, replication_factor = 2,
            positions = [], vnode_to_node = Map.empty, node_to_vnodes = []\<rparr>"

definition ring1 :: ring where
  "ring1 = \<lparr>replicas_per_node = 2, hash = len_hash, replication_factor = 2,
            positions = [4, 5], vnode_to_node = [4 \<mapsto> ''AB'', 5 \<mapsto> ''AB''],
            node_to_vnodes = [(''AB'', [4, 5])]\<rparr>"

definition ring2 :: ring where
  "ring2 = \<lparr>replicas_per_node = 2, hash = len_hash, replication_factor = 2,
            positions = [3, 4, 5, 6],
            vnode_to_node = [4 \<mapsto> ''AB'', 5 \<mapsto> ''AB'', 3 \<mapsto> ''A'', 6 \<mapsto> ''A''],
            node_to_vnodes = [(''AB'', [4, 5]), (''A'', [3, 6])]\<rparr>"

section \<open>Facts about the library functions\<close>

text \<open>On a sorted list the binary search of \<open>bisect_left\<close> finds the first position whose element is not below \<open>x\<close>.\<close>

lemma bisect_left_loop_spec:
  assumes "sorted a" "lo \<le> hi" "hi \<le> length a"
    "\<forall>j<lo. a ! j < x" "\<forall>j. hi \<le> j \<and> j < length a \<longrightarrow> x \<le> a ! j"
  shows "lo \<le> bisect_left_loop a x lo hi \<and> bisect_left_loop a x lo hi \<le> hi \<and>
         (\<forall>j<bisect_left_loop a x lo hi. a ! j < x) \<and>
         (\<forall>j. bisect_left_loop a x lo hi \<le> j \<and> j < length a \<longrightarrow> x \<le> a ! j)"
  using assms
proof (induction a x lo hi rule: bisect_left_loop.induct)
  case (1 a x lo hi)
  show ?case
  proof (cases "lo < hi")
    case False
    then have "bisect_left_loop a x lo hi = lo"
      by (subst bisect_left_loop.simps) simp
    with False "1.prems" show ?thesis by auto
  next
    case True
    define mid where "mid = (lo + hi) div 2"
    have mid: "lo \<le> mid" "mid < hi" using True by (auto simp: mid_def)
    show ?thesis
    proof (cases "a ! mid < x")
      case lt: True
      have low: "\<forall>j<mid + 1. a ! j < x"
      proof (intro allI impI)
        fix j assume "j < mid + 1"
        then have "a ! j \<le> a ! mid" using "1.prems"(1,3) mid
          by (auto intro!: sorted_nth_mono)
        with lt show "a ! j < x" by simp
      qed
      have eq: "bisect_left_loop a x lo hi = bisect_left_loop a x (mid + 1) hi"
        using True lt by (simp add: bisect_left_loop.simps [of a x lo hi] mid_def Let_def)
      have "mid + 1 \<le> bisect_left_loop a x (mid + 1) hi \<and> bisect_left_loop a x (mid + 1) hi \<le> hi \<and>
         (\<forall>j<bisect_left_loop a x (mid + 1) hi. a ! j < x) \<and>
         (\<forall>j. bisect_left_loop a x (mid + 1) hi \<le> j \<and> j < length a \<longrightarrow> x \<le> a ! j)"
        using "1.IH"(1) [OF True mid_def lt "1.prems"(1) _ "1.prems"(3) low "1.prems"(5)] mid
        by simp
      with eq mid show ?thesis by auto
    next
      case ge: False
      have high: "\<forall>j. mid \<le> j \<and> j < length a \<longrightarrow> x \<le> a ! j"
      proof (intro allI impI)
        fix j assume "mid \<le> j \<and> j < length a"
        then have "a ! mid \<le> a ! j" using "1.prems"(1)
          by (auto intro!: sorted_nth_mono)
        with ge show "x \<le> a ! j" by simp
      qed
      have eq: "bisect_left_loop a x lo hi = bisect_left_loop a x lo mid"
        using True ge by (simp add: bisect_left_loop.simps [of a x lo hi] mid_def Let_def)
      have "lo \<le> bisect_left_loop a x lo mid \<and> bisect_left_loop a x lo mid \<le> mid \<and>
         (\<forall>j<bisect_left_loop a x lo mid. a ! j < x) \<and>
         (\<forall>j. bisect_left_loop a x lo mid \<le> j \<and> j < length a \<longrightarrow> x \<le> a ! j)"
        using "1.IH"(2) [OF True mid_def ge "1.prems"(1) mid(1) _ "1.prems"(4) high] mid "1.prems"(3)
        by simp
      with eq mid show ?thesis by auto
    qed
  qed
qed

lemma bisect_right_loop_spec:
  assumes "sorted a" "lo \<le> hi" "hi \<le> length a"
    "\<forall>j<lo. a ! j \<le> x" "\<forall>j. hi \<le> j \<and> j < length a \<longrightarrow> x < a ! j"
  shows "lo \<le> bisect_right_loop a x lo hi \<and> bisect_right_loop a x lo hi \<le> hi \<and>
         (\<forall>j<bisect_right_loop a x lo hi. a ! j \<le> x) \<and>
         (\<forall>j. bisect_right_loop a x lo hi \<le> j \<and> j < length a \<longrightarrow> x < a ! j)"
  using assms
proof (induction a x lo hi rule: bisect_right_loop.induct)
  case (1 a x lo hi)
  show ?case
  proof (cases "lo < hi")
    case False
    then have "bisect_right_loop a x lo hi = lo"
      by (subst bisect_right_loop.simps) simp
    with False "1.prems" show ?thesis by auto
  next
    case True
    define mid where "mid = (lo + hi) div 2"
    have mid: "lo \<le> mid" "mid < hi" using True by (auto simp: mid_def)
    show ?thesis
    proof (cases "x < a ! mid")
      case lt: True
      have high: "\<forall>j. mid \<le> j \<and> j < length a \<longrightarrow> x < a ! j"
      proof (intro allI impI)
        fix j assume "mid \<le> j \<and> j < length a"
        then have "a ! mid \<le> a ! j" using "1.prems"(1)
          by (auto intro!: sorted_nth_mono)
        with lt show "x < a ! j" by simp
      qed
      have eq: "bisect_right_loop a x lo hi = bisect_right_loop a x lo mid"
        using True lt by (simp add: bisect_right_loop.simps [of a x lo hi] mid_def Let_def)
      have "lo \<le> bisect_right_loop a x lo mid \<and> bisect_right_loop a x lo mid \<le> mid \<and>
         (\<forall>j<bisect_right_loop a x lo mid. a ! j \<le> x) \<and>
         (\<forall>j. bisect_right_loop a x lo mid \<le> j \<and> j < length a \<longrightarrow> x < a ! j)"
        using "1.IH"(1) [OF True mid_def lt "1.prems"(1) mid(1) _ "1.prems"(4) high] mid "1.prems"(3)
        by simp
      with eq mid show ?thesis by auto
    next
      case ge: False
      have low: "\<forall>j<mid + 1. a ! j \<le> x"
      proof (intro allI impI)
        fix j assume "j < mid + 1"
        then have "a ! j \<le> a ! mid" using "1.prems"(1,3) mid
          by (auto intro!: sorted_nth_mono)
        with ge show "a ! j \<le> x" by simp
      qed
      have eq: "bisect_right_loop a x lo hi = bisect_right_loop a x (mid + 1) hi"
        using True ge by (simp add: bisect_right_loop.simps [of a x lo hi] mid_def Let_def)
      have "mid + 1 \<le> bisect_right_loop a x (mid + 1) hi \<and> bisect_right_loop a x (mid + 1) hi \<le> hi \<and>
         (\<forall>j<bisect_right_loop a x (mid + 1) hi. a ! j \<le> x) \<and>
         (\<forall>j. bisect_right_loop a x (mid + 1) hi \<le> j \<and> j < length a \<longrightarrow> x < a ! j)"
        using "1.IH"(2) [OF True mid_def ge "1.prems"(1) _ "1.prems"(3) low "1.prems"(5)] mid
        by simp
      with eq mid show ?thesis by auto
    qed
  qed
qed

lemma bisect_left_spec:
  assumes "sorted a"
  shows "bisect_left a x \<le> length a \<and> (\<forall>j<bisect_left a x. a ! j < x) \<and>
         (\<forall>j. bisect_left a x \<le> j \<and> j < length a \<longrightarrow> x \<le> a ! j)"
  using bisect_left_loop_spec [OF assms, of 0 "length a" x] by (simp add: bisect_left_def)

lemma bisect_right_spec:
  assumes "sorted a"
  shows "bisect_right a x \<le> length a \<and> (\<forall>j<bisect_right a x. a ! j \<le> x) \<and>
         (\<forall>j. bisect_right a x \<le> j \<and> j < length a \<longrightarrow> x < a ! j)"
  using bisect_right_loop_spec [OF assms, of 0 "length a" x] by (simp add: bisect_right_def)

lemma set_list_insert: "set (list_insert a i x) = insert x (set a)"
proof -
  have "set (take i a) \<union> set (drop i a) = set a"
    by (metis append_take_drop_id set_append)
  then show ?thesis by (auto simp: list_insert_def)
qed

lemma set_insort: "set (insort_right a x) = insert x (set a)"
  by (simp add: insort_right_def set_list_insert)

lemma length_insort: "length (insort_right a x) = Suc (length a)"
  by (simp add: insort_right_def list_insert_def)

lemma strict_sorted_insort:
  assumes a: "sorted_wrt (<) a" and x: "x \<notin> set a"
  shows "sorted_wrt (<) (insort_right a x)"
proof -
  have s: "sorted a" using a by (simp add: strict_sorted_iff)
  define i where "i = bisect_right a x"
  note sp = bisect_right_spec [OF s, of x, folded i_def]
  have l: "\<forall>y\<in>set (take i a). y < x"
  proof
    fix y assume "y \<in> set (take i a)"
    then obtain j where j: "j < length (take i a)" "take i a ! j = y"
      by (auto simp: in_set_conv_nth)
    then have "y \<le> x" using sp by auto
    moreover have "y \<in> set a" using \<open>y \<in> set (take i a)\<close> by (rule in_set_takeD)
    ultimately show "y < x" using x by (cases "y = x") auto
  qed
  have h: "\<forall>y\<in>set (drop i a). x < y"
  proof
    fix y assume "y \<in> set (drop i a)"
    then obtain j where j: "j < length (drop i a)" "drop i a ! j = y"
      by (auto simp: in_set_conv_nth)
    then show "x < y" using sp by auto
  qed
  have "sorted_wrt (<) (take i a @ drop i a)" using a by simp
  then have "sorted_wrt (<) (take i a @ x # drop i a)"
    using l h by (fastforce simp: sorted_wrt_append)
  then show ?thesis by (simp add: insort_right_def list_insert_def i_def)
qed

lemma bisect_left_finds:
  assumes a: "sorted_wrt (<) a" and x: "x \<in> set a"
  shows "bisect_left a x < length a \<and> a ! bisect_left a x = x"
proof -
  have s: "sorted a" using a by (simp add: strict_sorted_iff)
  define i where "i = bisect_left a x"
  note sp = bisect_left_spec [OF s, of x, folded i_def]
  obtain k where k: "k < length a" "a ! k = x" using x by (auto simp: in_set_conv_nth)
  have "i \<le> k" using sp k by (metis not_le_imp_less order_less_irrefl)
  then have il: "i < length a" using k by simp
  have "x \<le> a ! i" using sp il by simp
  moreover have "a ! i \<le> a ! k" using sorted_nth_mono [OF s \<open>i \<le> k\<close> k(1)] .
  ultimately show ?thesis using il k by (simp add: i_def)
qed

lemma set_list_pop:
  assumes "distinct a" "i < length a"
  shows "set (list_pop a i) = set a - {a ! i}"
proof -
  have "a = take i a @ a ! i # drop (Suc i) a" using assms(2) by (simp add: id_take_nth_drop)
  then have d: "distinct (take i a @ a ! i # drop (Suc i) a)" 
    and s: "set a = set (take i a @ a ! i # drop (Suc i) a)" using assms(1) by simp_all
  show ?thesis using d unfolding s by (auto simp: list_pop_def)
qed

lemma sorted_list_pop:
  assumes "sorted_wrt (<) (a :: int list)"
  shows "sorted_wrt (<) (list_pop a i)"
proof -
  have c: "\<forall>x\<in>set (take i a). \<forall>y\<in>set (drop i a). x < y"
    using assms sorted_wrt_append [of "(<)" "take i a" "drop i a"] by simp
  have sub: "set (drop (Suc i) a) \<subseteq> set (drop i a)"
    by (simp add: set_drop_subset_set_drop)
  have "sorted_wrt (<) (take i a)" "sorted_wrt (<) (drop (Suc i) a)"
    using assms by simp_all
  then show ?thesis using c sub
    by (auto simp: list_pop_def sorted_wrt_append)
qed

section \<open>Facts about node management\<close>

text \<open>When the collision loop returns, it returns the first free candidate of linear probing.\<close>

lemma mask64: "(x::int) AND (push_bit 64 1 - 1) = x mod 2 ^ 64"
proof -
  have "(push_bit 64 1 - 1 :: int) = mask 64" by (simp add: mask_eq_exp_minus_1)
  then show ?thesis by (simp only: take_bit_eq_mod [symmetric] take_bit_eq_mask)
qed

lemma probe_first_free:
  assumes "probe v2n h = Some p"
  shows "first_free (dom v2n) h p"
proof (rule probe.raw_induct [where P = "\<lambda>m h p. first_free (dom m) h p", OF _ assms])
  fix probe' :: "(int \<rightharpoonup> string) \<Rightarrow> int \<Rightarrow> int option" and m h p
  assume IH: "\<And>m h p. probe' m h = Some p \<Longrightarrow> first_free (dom m) h p"
    and eq: "(if m h \<noteq> None then probe' m ((h + 1) AND (push_bit 64 1 - 1)) else Some h) = Some p"
  show "first_free (dom m) h p"
  proof (cases "m h = None")
    case True
    with eq have "p = h" by simp
    with True have "p = probe_seq h 0 \<and> p \<notin> dom m \<and> (\<forall>j<0. probe_seq h j \<in> dom m)"
      by auto
    then show ?thesis unfolding first_free_def by blast
  next
    case False
    from eq have "probe' m ((h + 1) AND (push_bit 64 1 - 1)) = Some p"
      by (simp only: False not_False_eq_True if_True)
    then have "probe' m ((h + 1) mod 2 ^ 64) = Some p" by (simp only: mask64)
    then have "first_free (dom m) ((h + 1) mod 2 ^ 64) p" by (rule IH)
    then obtain k where k: "p = probe_seq ((h + 1) mod 2 ^ 64) k" "p \<notin> dom m"
      "\<forall>j<k. probe_seq ((h + 1) mod 2 ^ 64) j \<in> dom m"
      unfolding first_free_def by blast
    have "\<forall>j<Suc k. probe_seq h j \<in> dom m"
    proof (intro allI impI)
      fix j assume "j < Suc k"
      then show "probe_seq h j \<in> dom m" using k(3) False by (cases j) auto
    qed
    with k(1,2) have "p = probe_seq h (Suc k) \<and> p \<notin> dom m \<and> (\<forall>j<Suc k. probe_seq h j \<in> dom m)"
      by simp
    then show ?thesis unfolding first_free_def by blast
  qed
qed

lemma probe_free: "probe v2n h = Some p \<Longrightarrow> v2n p = None"
  using probe_first_free [of v2n h p] by (auto simp: first_free_def)

text \<open>The replica loop of \<open>add_node\<close>: what it does to the ring and to \<open>vnodes\<close>.\<close>

lemma place_replicaE:
  assumes "place_replica x i (r, vs) = Some st'"
  obtains pos where "probe (vnode_to_node r) (hash r (vnode_key x i)) = Some pos"
    "st' = (r\<lparr>positions := insort_right (positions r) pos,
               vnode_to_node := (vnode_to_node r)(pos \<mapsto> x)\<rparr>, vs @ [pos])"
  using assms by (auto simp: place_replica_def split: option.splits)

lemma add_node_loop_sorted:
  assumes "add_node_loop x is (r, vs0) = Some (r', vs')"
    "sorted_wrt (<) (positions r)" "set (positions r) = dom (vnode_to_node r)"
  shows "sorted_wrt (<) (positions r') \<and> set (positions r') = dom (vnode_to_node r')"
  using assms
proof (induction "is" arbitrary: r vs0)
  case Nil
  then show ?case by simp
next
  case (Cons i rest)
  from Cons.prems(1) obtain st1 where st1: "place_replica x i (r, vs0) = Some st1"
    "add_node_loop x rest st1 = Some (r', vs')"
    by (auto split: option.splits)
  from st1(1) obtain pos where pos: "probe (vnode_to_node r) (hash r (vnode_key x i)) = Some pos"
    "st1 = (r\<lparr>positions := insort_right (positions r) pos,
               vnode_to_node := (vnode_to_node r)(pos \<mapsto> x)\<rparr>, vs0 @ [pos])"
    by (rule place_replicaE)
  define r1 where "r1 = r\<lparr>positions := insort_right (positions r) pos,
               vnode_to_node := (vnode_to_node r)(pos \<mapsto> x)\<rparr>"
  have free: "pos \<notin> set (positions r)"
    using probe_free [OF pos(1)] Cons.prems(3) by auto
  have "sorted_wrt (<) (positions r1)"
    using strict_sorted_insort [OF Cons.prems(2) free] by (simp add: r1_def)
  moreover have "set (positions r1) = dom (vnode_to_node r1)"
    using Cons.prems(3) by (simp add: r1_def set_insort)
  moreover have "add_node_loop x rest (r1, vs0 @ [pos]) = Some (r', vs')"
    using st1(2) pos(2) by (simp add: r1_def)
  ultimately show ?case using Cons.IH by blast
qed

lemma add_node_loop_spec:
  assumes "add_node_loop x is (r, vs0) = Some (r', vs')"
  shows "\<exists>ws. vs' = vs0 @ ws \<and> length ws = length is \<and> distinct ws \<and>
     set ws \<inter> dom (vnode_to_node r) = {} \<and>
     vnode_to_node r' = (\<lambda>p. if p \<in> set ws then Some x else vnode_to_node r p) \<and>
     set (positions r') = set (positions r) \<union> set ws \<and>
     (\<forall>j<length is. first_free (dom (vnode_to_node r) \<union> set (take j ws))
                        (hash r (vnode_key x (is ! j))) (ws ! j)) \<and>
     replicas_per_node r' = replicas_per_node r \<and> hash r' = hash r \<and>
     replication_factor r' = replication_factor r \<and> node_to_vnodes r' = node_to_vnodes r"
  using assms
proof (induction "is" arbitrary: r vs0)
  case Nil
  then show ?case by simp
next
  case (Cons i rest)
  from Cons.prems(1) obtain st1 where st1: "place_replica x i (r, vs0) = Some st1"
    "add_node_loop x rest st1 = Some (r', vs')"
    by (auto split: option.splits)
  from st1(1) obtain pos where pos: "probe (vnode_to_node r) (hash r (vnode_key x i)) = Some pos"
    "st1 = (r\<lparr>positions := insort_right (positions r) pos,
               vnode_to_node := (vnode_to_node r)(pos \<mapsto> x)\<rparr>, vs0 @ [pos])"
    by (rule place_replicaE)
  define r1 where "r1 = r\<lparr>positions := insort_right (positions r) pos,
               vnode_to_node := (vnode_to_node r)(pos \<mapsto> x)\<rparr>"
  have r1: "vnode_to_node r1 = (vnode_to_node r)(pos \<mapsto> x)"
    "set (positions r1) = insert pos (set (positions r))"
    "replicas_per_node r1 = replicas_per_node r" "hash r1 = hash r"
    "replication_factor r1 = replication_factor r" "node_to_vnodes r1 = node_to_vnodes r"
    by (simp_all add: r1_def set_insort)
  have free: "vnode_to_node r pos = None" by (rule probe_free [OF pos(1)])
  have ff: "first_free (dom (vnode_to_node r)) (hash r (vnode_key x i)) pos"
    by (rule probe_first_free [OF pos(1)])
  have "add_node_loop x rest (r1, vs0 @ [pos]) = Some (r', vs')"
    using st1(2) pos(2) by (simp add: r1_def)
  from Cons.IH [OF this] obtain ws where ws:
    "vs' = (vs0 @ [pos]) @ ws" "length ws = length rest" "distinct ws"
    "set ws \<inter> dom (vnode_to_node r1) = {}"
    "vnode_to_node r' = (\<lambda>p. if p \<in> set ws then Some x else vnode_to_node r1 p)"
    "set (positions r') = set (positions r1) \<union> set ws"
    "\<forall>j<length rest. first_free (dom (vnode_to_node r1) \<union> set (take j ws))
                        (hash r1 (vnode_key x (rest ! j))) (ws ! j)"
    "replicas_per_node r' = replicas_per_node r1" "hash r' = hash r1"
    "replication_factor r' = replication_factor r1" "node_to_vnodes r' = node_to_vnodes r1"
    by blast
  have notin: "pos \<notin> set ws" using ws(4) r1(1) by auto
  have a: "vs' = vs0 @ (pos # ws)" using ws(1) by simp
  have b: "length (pos # ws) = length (i # rest)" using ws(2) by simp
  have c: "distinct (pos # ws)" using ws(3) notin by simp
  have d: "set (pos # ws) \<inter> dom (vnode_to_node r) = {}"
    using ws(4) r1(1) free by auto
  have e: "vnode_to_node r' = (\<lambda>p. if p \<in> set (pos # ws) then Some x else vnode_to_node r p)"
    unfolding ws(5) r1(1) by (rule ext) simp
  have f: "set (positions r') = set (positions r) \<union> set (pos # ws)"
    using ws(6) r1(2) by auto
  have g: "\<forall>j<length (i # rest). first_free (dom (vnode_to_node r) \<union> set (take j (pos # ws)))
                        (hash r (vnode_key x ((i # rest) ! j))) ((pos # ws) ! j)"
  proof (intro allI impI)
    fix j assume j: "j < length (i # rest)"
    show "first_free (dom (vnode_to_node r) \<union> set (take j (pos # ws)))
                        (hash r (vnode_key x ((i # rest) ! j))) ((pos # ws) ! j)"
    proof (cases j)
      case 0
      with ff show ?thesis by simp
    next
      case (Suc j')
      then have "j' < length rest" using j by simp
      then have "first_free (dom (vnode_to_node r1) \<union> set (take j' ws))
                        (hash r1 (vnode_key x (rest ! j'))) (ws ! j')" using ws(7) by blast
      moreover have "dom (vnode_to_node r1) \<union> set (take j' ws) =
          dom (vnode_to_node r) \<union> set (take j (pos # ws))"
        by (simp add: r1(1) Suc)
      ultimately show ?thesis by (simp add: Suc r1(4))
    qed
  qed
  show ?case
    using a b c d e f g ws(8-11) r1(3-6) by (intro exI [of _ "pos # ws"]) simp
qed

text \<open>The loop of \<open>remove_node\<close> on a ring with strictly increasing \<open>positions\<close>.\<close>

lemma remove_vnode_fields:
  "vnode_to_node (remove_vnode pos r) = (vnode_to_node r)(pos := None)"
  "replicas_per_node (remove_vnode pos r) = replicas_per_node r"
  "hash (remove_vnode pos r) = hash r"
  "replication_factor (remove_vnode pos r) = replication_factor r"
  "node_to_vnodes (remove_vnode pos r) = node_to_vnodes r"
  by (simp_all add: remove_vnode_def Let_def)

lemma remove_vnode_positions:
  assumes "sorted_wrt (<) (positions r)"
  shows "sorted_wrt (<) (positions (remove_vnode pos r))"
    and "set (positions (remove_vnode pos r)) = set (positions r) - {pos}"
proof -
  define idx where "idx = bisect_left (positions r) pos"
  have "sorted_wrt (<) (positions (remove_vnode pos r)) \<and>
        set (positions (remove_vnode pos r)) = set (positions r) - {pos}"
  proof (cases "pos \<in> set (positions r)")
    case True
    have f: "idx < length (positions r)" "positions r ! idx = pos"
      using bisect_left_finds [OF assms True] by (simp_all add: idx_def)
    have d: "distinct (positions r)" using assms by (simp add: strict_sorted_iff)
    have "positions (remove_vnode pos r) = list_pop (positions r) idx"
      using f by (simp add: remove_vnode_def idx_def Let_def)
    then show ?thesis
      using sorted_list_pop [OF assms, of idx] set_list_pop [OF d f(1)] f(2) by simp
  next
    case False
    have "\<not> (idx < length (positions r) \<and> positions r ! idx = pos)"
      using False nth_mem by blast
    then have "positions (remove_vnode pos r) = positions r"
      by (auto simp: remove_vnode_def idx_def Let_def)
    then show ?thesis using assms False by simp
  qed
  then show "sorted_wrt (<) (positions (remove_vnode pos r))"
    and "set (positions (remove_vnode pos r)) = set (positions r) - {pos}" by simp_all
qed

lemma fold_remove_vnode_fields:
  "vnode_to_node (fold remove_vnode vs r) = (\<lambda>p. if p \<in> set vs then None else vnode_to_node r p)"
  "replicas_per_node (fold remove_vnode vs r) = replicas_per_node r"
  "hash (fold remove_vnode vs r) = hash r"
  "replication_factor (fold remove_vnode vs r) = replication_factor r"
  "node_to_vnodes (fold remove_vnode vs r) = node_to_vnodes r"
proof -
  show "vnode_to_node (fold remove_vnode vs r) = (\<lambda>p. if p \<in> set vs then None else vnode_to_node r p)"
  proof (induction vs arbitrary: r)
    case Nil
    show ?case by simp
  next
    case (Cons pos vs)
    show ?case by (rule ext) (simp add: Cons.IH remove_vnode_fields(1))
  qed
  show "replicas_per_node (fold remove_vnode vs r) = replicas_per_node r"
    by (induction vs arbitrary: r) (simp_all add: remove_vnode_fields)
  show "hash (fold remove_vnode vs r) = hash r"
    by (induction vs arbitrary: r) (simp_all add: remove_vnode_fields)
  show "replication_factor (fold remove_vnode vs r) = replication_factor r"
    by (induction vs arbitrary: r) (simp_all add: remove_vnode_fields)
  show "node_to_vnodes (fold remove_vnode vs r) = node_to_vnodes r"
    by (induction vs arbitrary: r) (simp_all add: remove_vnode_fields)
qed

lemma fold_remove_vnode_positions:
  assumes "sorted_wrt (<) (positions r)"
  shows "sorted_wrt (<) (positions (fold remove_vnode vs r)) \<and>
         set (positions (fold remove_vnode vs r)) = set (positions r) - set vs"
  using assms
proof (induction vs arbitrary: r)
  case Nil
  then show ?case by simp
next
  case (Cons pos vs)
  note s = remove_vnode_positions [OF Cons.prems, of pos]
  note ih = Cons.IH [OF s(1)]
  have "set (positions r) - {pos} - set vs = set (positions r) - set (pos # vs)" by auto
  then show ?case using ih by (simp add: s(2))
qed

text \<open>The invariant the proofs carry holds in every reachable ring, and gives the structural one.\<close>

lemma ring_wfI:
  assumes "0 < replicas_per_node r \<and> 0 < replication_factor r"
    "sorted_wrt (<) (positions r) \<and> set (positions r) = dom (vnode_to_node r)"
    "distinct (map fst (node_to_vnodes r))"
    "\<forall>n vs. map_of (node_to_vnodes r) n = Some vs \<longrightarrow>
        vs \<noteq> [] \<and> (\<forall>p\<in>set vs. vnode_to_node r p = Some n)"
    "\<forall>p n. vnode_to_node r p = Some n \<longrightarrow>
        (\<exists>vs. map_of (node_to_vnodes r) n = Some vs \<and> p \<in> set vs)"
  shows "ring_wf r"
  unfolding ring_wf_def using assms by (intro conjI) (erule conjunct1 conjunct2 | assumption)+

lemma ring_wfD:
  assumes "ring_wf r"
  shows "0 < replicas_per_node r" "0 < replication_factor r"
    "sorted_wrt (<) (positions r)" "set (positions r) = dom (vnode_to_node r)"
    "distinct (map fst (node_to_vnodes r))"
  using assms by (simp_all add: ring_wf_def)

lemma ring_wf_owned:
  assumes "ring_wf r" "map_of (node_to_vnodes r) n = Some vs"
  shows "vs \<noteq> []" "p \<in> set vs \<Longrightarrow> vnode_to_node r p = Some n"
proof -
  have "\<forall>n vs. map_of (node_to_vnodes r) n = Some vs \<longrightarrow>
        vs \<noteq> [] \<and> (\<forall>p\<in>set vs. vnode_to_node r p = Some n)"
    using assms(1) unfolding ring_wf_def by (elim conjE)
  with assms(2) have "vs \<noteq> [] \<and> (\<forall>p\<in>set vs. vnode_to_node r p = Some n)" by blast
  then show "vs \<noteq> []" "p \<in> set vs \<Longrightarrow> vnode_to_node r p = Some n" by simp_all
qed

lemma ring_wf_owner:
  assumes "ring_wf r" "vnode_to_node r p = Some n"
  shows "\<exists>vs. map_of (node_to_vnodes r) n = Some vs \<and> p \<in> set vs"
proof -
  have "\<forall>p n. vnode_to_node r p = Some n \<longrightarrow>
        (\<exists>vs. map_of (node_to_vnodes r) n = Some vs \<and> p \<in> set vs)"
    using assms(1) unfolding ring_wf_def by (elim conjE)
  with assms(2) show ?thesis by blast
qed

lemma ring_wf_construct:
  assumes "construct rpn h rf = Inr r"
  shows "ring_wf r"
  using assms by (auto simp: construct_def ring_wf_def split: if_splits)

lemma ring_wf_add_node:
  assumes wf: "ring_wf r" and add: "add_node r x = Some (res, r')"
  shows "ring_wf r'"
proof (cases "map_of (node_to_vnodes r) x = None")
  case False
  with add have "r' = r" by (simp add: add_node_def)
  with wf show ?thesis by simp
next
  case True
  from add True obtain r1 vs where
    loop: "add_node_loop x [0..<nat (replicas_per_node r)] (r, []) = Some (r1, vs)"
    and r': "r' = r1\<lparr>node_to_vnodes := AList.update x vs (node_to_vnodes r1)\<rparr>"
    by (auto simp: add_node_def split: option.splits)
  from add_node_loop_spec [OF loop] have sp:
    "length vs = nat (replicas_per_node r)" "set vs \<inter> dom (vnode_to_node r) = {}"
    "vnode_to_node r1 = (\<lambda>p. if p \<in> set vs then Some x else vnode_to_node r p)"
    "replicas_per_node r1 = replicas_per_node r" "replication_factor r1 = replication_factor r"
    "node_to_vnodes r1 = node_to_vnodes r"
    by auto
  note wf' = ring_wfD [OF wf]
  have own: "\<And>n ws. map_of (node_to_vnodes r) n = Some ws \<Longrightarrow>
        ws \<noteq> [] \<and> (\<forall>p\<in>set ws. vnode_to_node r p = Some n)"
    using ring_wf_owned [OF wf] by blast
  note owner = ring_wf_owner [OF wf]
  note so = add_node_loop_sorted [OF loop wf'(3,4)]
  have ne: "vs \<noteq> []" using sp(1) wf'(1) by auto
  have n2v: "map_of (node_to_vnodes r') = (map_of (node_to_vnodes r))(x \<mapsto> vs)"
    by (simp add: r' sp(6) update_conv')
  have v2n: "vnode_to_node r' = (\<lambda>p. if p \<in> set vs then Some x else vnode_to_node r p)"
    by (simp add: r' sp(3))
  have a: "\<forall>n ws. map_of (node_to_vnodes r') n = Some ws \<longrightarrow>
        ws \<noteq> [] \<and> (\<forall>p\<in>set ws. vnode_to_node r' p = Some n)"
  proof (intro allI impI)
    fix n ws assume h: "map_of (node_to_vnodes r') n = Some ws"
    show "ws \<noteq> [] \<and> (\<forall>p\<in>set ws. vnode_to_node r' p = Some n)"
    proof (cases "n = x")
      case True
      with h n2v have "ws = vs" by simp
      with ne True show ?thesis by (simp add: v2n)
    next
      case False
      with h n2v have old: "map_of (node_to_vnodes r) n = Some ws" by simp
      note o = own [OF old]
      have "\<forall>p\<in>set ws. p \<notin> set vs" using o sp(2) by auto
      with o show ?thesis by (simp add: v2n)
    qed
  qed
  have b: "\<forall>p n. vnode_to_node r' p = Some n \<longrightarrow>
        (\<exists>ws. map_of (node_to_vnodes r') n = Some ws \<and> p \<in> set ws)"
  proof (intro allI impI)
    fix p n assume h: "vnode_to_node r' p = Some n"
    show "\<exists>ws. map_of (node_to_vnodes r') n = Some ws \<and> p \<in> set ws"
    proof (cases "p \<in> set vs")
      case True
      with h v2n have "n = x" by simp
      with True n2v show ?thesis by simp
    next
      case False
      with h v2n have "vnode_to_node r p = Some n" by simp
      from owner [OF this] obtain ws where ws: "map_of (node_to_vnodes r) n = Some ws" "p \<in> set ws"
        by blast
      with \<open>map_of (node_to_vnodes r) x = None\<close> have "n \<noteq> x" by auto
      with ws n2v show ?thesis by simp
    qed
  qed
  have c: "distinct (map fst (node_to_vnodes r'))"
    using wf'(5) by (simp add: r' sp(6) distinct_update)
  have d: "sorted_wrt (<) (positions r') \<and> set (positions r') = dom (vnode_to_node r')"
    using so by (simp add: r')
  have e: "0 < replicas_per_node r' \<and> 0 < replication_factor r'"
    using wf'(1,2) sp(4,5) by (simp add: r')
  show ?thesis using e d c a b by (rule ring_wfI)
qed

lemma ring_wf_remove_node:
  assumes wf: "ring_wf r" and rem: "remove_node r x = (res, r')"
  shows "ring_wf r'"
proof (cases "map_of (node_to_vnodes r) x")
  case None
  then have "AList.delete x (node_to_vnodes r) = node_to_vnodes r"
    by (simp add: map_of_eq_None_iff)
  with rem None have "r' = r" by (simp add: remove_node_def)
  with wf show ?thesis by simp
next
  case (Some vs)
  define r1 where "r1 = r\<lparr>node_to_vnodes := AList.delete x (node_to_vnodes r)\<rparr>"
  have r': "r' = fold remove_vnode vs r1" using rem Some by (simp add: remove_node_def r1_def)
  note wf' = ring_wfD [OF wf]
  have own: "\<And>n ws. map_of (node_to_vnodes r) n = Some ws \<Longrightarrow>
        ws \<noteq> [] \<and> (\<forall>p\<in>set ws. vnode_to_node r p = Some n)"
    using ring_wf_owned [OF wf] by blast
  note owner = ring_wf_owner [OF wf]
  have r1: "positions r1 = positions r" "vnode_to_node r1 = vnode_to_node r"
    "replicas_per_node r1 = replicas_per_node r" "replication_factor r1 = replication_factor r"
    "node_to_vnodes r1 = AList.delete x (node_to_vnodes r)"
    by (simp_all add: r1_def)
  have "sorted_wrt (<) (positions r1)" using wf'(3) by (simp add: r1)
  note pp = fold_remove_vnode_positions [OF this, of vs, folded r', unfolded r1]
  note sp = fold_remove_vnode_fields [of vs r1, folded r', unfolded r1]
  have n2v: "map_of (node_to_vnodes r') = (map_of (node_to_vnodes r))(x := None)"
    by (simp add: sp(5) delete_conv')
  have v2n: "vnode_to_node r' = (\<lambda>p. if p \<in> set vs then None else vnode_to_node r p)"
    by (rule sp(1))
  have a: "\<forall>n ws. map_of (node_to_vnodes r') n = Some ws \<longrightarrow>
        ws \<noteq> [] \<and> (\<forall>p\<in>set ws. vnode_to_node r' p = Some n)"
  proof (intro allI impI)
    fix n ws assume h: "map_of (node_to_vnodes r') n = Some ws"
    then have nx: "n \<noteq> x" and old: "map_of (node_to_vnodes r) n = Some ws"
      using n2v by (auto split: if_splits)
    note o = own [OF old]
    have "\<forall>p\<in>set ws. p \<notin> set vs"
    proof
      fix p assume "p \<in> set ws"
      then have "vnode_to_node r p = Some n" using o by blast
      moreover have "p \<in> set vs \<Longrightarrow> vnode_to_node r p = Some x" using own [OF Some] by blast
      ultimately show "p \<notin> set vs" using nx by auto
    qed
    with o show "ws \<noteq> [] \<and> (\<forall>p\<in>set ws. vnode_to_node r' p = Some n)" by (simp add: v2n)
  qed
  have b: "\<forall>p n. vnode_to_node r' p = Some n \<longrightarrow>
        (\<exists>ws. map_of (node_to_vnodes r') n = Some ws \<and> p \<in> set ws)"
  proof (intro allI impI)
    fix p n assume h: "vnode_to_node r' p = Some n"
    then have pv: "p \<notin> set vs" and old: "vnode_to_node r p = Some n"
      using v2n by (auto split: if_splits)
    from owner [OF old] obtain ws where ws: "map_of (node_to_vnodes r) n = Some ws" "p \<in> set ws"
      by blast
    have "n \<noteq> x" using ws Some pv by auto
    with ws n2v show "\<exists>ws. map_of (node_to_vnodes r') n = Some ws \<and> p \<in> set ws" by simp
  qed
  have c: "distinct (map fst (node_to_vnodes r'))"
    using wf'(5) by (simp add: sp(5) distinct_delete)
  have "set vs \<subseteq> dom (vnode_to_node r)" using own [OF Some] by auto
  then have "dom (vnode_to_node r') = dom (vnode_to_node r) - set vs"
    by (auto simp: v2n split: if_splits)
  then have d: "sorted_wrt (<) (positions r') \<and> set (positions r') = dom (vnode_to_node r')"
    using pp wf'(4) by simp
  have e: "0 < replicas_per_node r' \<and> 0 < replication_factor r'"
    using wf'(1,2) by (simp add: sp(2,4))
  show ?thesis using e d c a b by (rule ring_wfI)
qed

lemma reachable_wf: "reachable r \<Longrightarrow> ring_wf r"
proof (induction rule: reachable.induct)
  case (init rpn hash_func rf r)
  then show ?case by (rule ring_wf_construct)
next
  case (add r node_id res r')
  then show ?case using ring_wf_add_node by blast
next
  case (remove r node_id res r')
  then show ?case using ring_wf_remove_node by blast
qed

lemma ring_wf_inv:
  assumes wf: "ring_wf r"
  shows "ring_inv r"
proof -
  note wf' = ring_wfD [OF wf]
  have own: "\<And>n ws. map_of (node_to_vnodes r) n = Some ws \<Longrightarrow>
        ws \<noteq> [] \<and> (\<forall>p\<in>set ws. vnode_to_node r p = Some n)"
    using ring_wf_owned [OF wf] by blast
  note owner = ring_wf_owner [OF wf]
  have d: "distinct (positions r)" using wf'(3) by (simp add: strict_sorted_iff)
  have u: "(\<Union>vs\<in>snd ` set (node_to_vnodes r). set vs) = set (positions r)"
  proof (intro set_eqI iffI)
    fix p assume "p \<in> (\<Union>vs\<in>snd ` set (node_to_vnodes r). set vs)"
    then obtain n vs where "(n, vs) \<in> set (node_to_vnodes r)" "p \<in> set vs" by auto
    then have "map_of (node_to_vnodes r) n = Some vs" "p \<in> set vs" using wf'(5) by auto
    then have "vnode_to_node r p = Some n" using own by blast
    then show "p \<in> set (positions r)" using wf'(4) by auto
  next
    fix p assume "p \<in> set (positions r)"
    then obtain n where "vnode_to_node r p = Some n" using wf'(4) by auto
    from owner [OF this] obtain vs where "map_of (node_to_vnodes r) n = Some vs" "p \<in> set vs"
      by blast
    then have "(n, vs) \<in> set (node_to_vnodes r)" "p \<in> set vs" by (auto dest: map_of_SomeD)
    then show "p \<in> (\<Union>vs\<in>snd ` set (node_to_vnodes r). set vs)" by force
  qed
  have v: "\<forall>n. n \<in> fst ` set (node_to_vnodes r) \<longleftrightarrow> n \<in> ran (vnode_to_node r)"
  proof (intro allI iffI)
    fix n assume "n \<in> fst ` set (node_to_vnodes r)"
    then obtain vs where "map_of (node_to_vnodes r) n = Some vs"
      by (metis map_of_eq_None_iff not_Some_eq)
    from own [OF this] obtain p where "vnode_to_node r p = Some n"
      by (cases vs) auto
    then show "n \<in> ran (vnode_to_node r)" by (auto simp: ran_def)
  next
    fix n assume "n \<in> ran (vnode_to_node r)"
    then obtain p where "vnode_to_node r p = Some n" by (auto simp: ran_def)
    from owner [OF this] show "n \<in> fst ` set (node_to_vnodes r)"
      by (metis map_of_eq_None_iff option.distinct(1))
  qed
  show ?thesis unfolding ring_inv_def using wf'(3,4) d u v by blast
qed

text \<open>
  The collision loop returns as soon as one position from \<open>0\<close> to \<open>2^64 - 1\<close> is free, so
  \<open>add_node\<close> returns on every reachable ring that has room for the new replicas.
\<close>

lemma probe_returns_in_range:
  assumes q: "0 \<le> q" "q < 2 ^ 64" "m q = None"
    and h: "0 \<le> h" "h < 2 ^ 64"
    and d: "d = nat ((q - h) mod 2 ^ 64)"
  shows "\<exists>p. probe m h = Some p"
  using h d
proof (induction d arbitrary: h)
  case 0
  then have "nat ((q - h) mod 2 ^ 64) = 0" by simp
  moreover have "0 \<le> (q - h) mod 2 ^ 64" by simp
  ultimately have "(q - h) mod 2 ^ 64 = 0" by linarith
  then have "(2 ^ 64 :: int) dvd q - h" by (simp only: mod_eq_0_iff_dvd)
  have b: "\<bar>q - h\<bar> < 2 ^ 64" using q "0.prems" by simp
  have "q = h"
  proof (rule ccontr)
    assume "q \<noteq> h"
    then have "q - h \<noteq> 0" by simp
    from dvd_imp_le_int [OF this \<open>2 ^ 64 dvd q - h\<close>] b show False by simp
  qed
  then show ?case using q(3) by (subst probe.simps) simp
next
  case (Suc d)
  show ?case
  proof (cases "m h = None")
    case True
    then show ?thesis by (subst probe.simps) simp
  next
    case False
    define h' where "h' = (h + 1) mod 2 ^ 64"
    have r: "0 \<le> h'" "h' < 2 ^ 64" by (simp_all add: h'_def)
    have "(q - h') mod 2 ^ 64 = (q - (h + 1)) mod 2 ^ 64"
      by (simp add: h'_def mod_diff_right_eq)
    also have "\<dots> = ((q - h) mod 2 ^ 64 - 1) mod 2 ^ 64"
      by (simp add: mod_diff_left_eq algebra_simps)
    also have "\<dots> = (q - h) mod 2 ^ 64 - 1"
    proof -
      have "1 \<le> (q - h) mod 2 ^ 64" using Suc.prems(3) by simp
      moreover have "(q - h) mod 2 ^ 64 < (2 ^ 64 :: int)" by simp
      ultimately show ?thesis by simp
    qed
    finally have "d = nat ((q - h') mod 2 ^ 64)" using Suc.prems(3) by simp
    from Suc.IH [OF r this] obtain p where "probe m h' = Some p" by blast
    moreover have "probe m h = probe m h'"
      using False by (subst probe.simps) (simp only: mask64 h'_def not_False_eq_True if_True)
    ultimately show ?thesis by simp
  qed
qed

lemma probe_returns:
  assumes q: "0 \<le> q" "q < 2 ^ 64" "m q = None"
  shows "\<exists>p. probe m h = Some p"
proof (cases "m h = None")
  case True
  then show ?thesis by (subst probe.simps) simp
next
  case False
  define h' where "h' = (h + 1) mod 2 ^ 64"
  have r: "0 \<le> h'" "h' < 2 ^ 64" by (simp_all add: h'_def)
  from probe_returns_in_range [where q = q and m = m and h = h', OF q r refl] obtain p where "probe m h' = Some p" by blast
  moreover have "probe m h = probe m h'"
    using False by (subst probe.simps) (simp only: mask64 h'_def not_False_eq_True if_True)
  ultimately show ?thesis by simp
qed

lemma free_position:
  assumes "finite (dom m)" "card (dom m) < 2 ^ 64"
  shows "\<exists>q::int. 0 \<le> q \<and> q < 2 ^ 64 \<and> m q = None"
proof (rule ccontr)
  assume "\<not> ?thesis"
  then have "{0..<2 ^ 64} \<subseteq> dom m" by (auto simp: dom_def)
  from card_mono [OF assms(1) this] have "2 ^ 64 \<le> card (dom m)" by simp
  with assms(2) show False by simp
qed

lemma add_node_loop_returns:
  assumes "finite (dom (vnode_to_node r))"
    "card (dom (vnode_to_node r)) + length is \<le> 2 ^ 64"
  shows "\<exists>st. add_node_loop x is (r, vs) = Some st"
  using assms
proof (induction "is" arbitrary: r vs)
  case Nil
  show ?case by simp
next
  case (Cons i rest)
  have "card (dom (vnode_to_node r)) < 2 ^ 64" using Cons.prems(2) by simp
  from free_position [OF Cons.prems(1) this] obtain q where
    "0 \<le> q" "q < 2 ^ 64" "vnode_to_node r q = None" by blast
  from probe_returns [where q = q and m = "vnode_to_node r", OF this] obtain pos where
    pos: "probe (vnode_to_node r) (hash r (vnode_key x i)) = Some pos" by blast
  define r1 where "r1 = r\<lparr>positions := insort_right (positions r) pos,
               vnode_to_node := (vnode_to_node r)(pos \<mapsto> x)\<rparr>"
  have pr: "place_replica x i (r, vs) = Some (r1, vs @ [pos])"
    by (simp add: place_replica_def pos r1_def)
  have d: "dom (vnode_to_node r1) = insert pos (dom (vnode_to_node r))" by (simp add: r1_def)
  have "pos \<notin> dom (vnode_to_node r)" using probe_free [OF pos] by auto
  then have "card (dom (vnode_to_node r1)) = Suc (card (dom (vnode_to_node r)))"
    using Cons.prems(1) by (simp add: d)
  then have "card (dom (vnode_to_node r1)) + length rest \<le> 2 ^ 64" using Cons.prems(2) by simp
  moreover have "finite (dom (vnode_to_node r1))" using Cons.prems(1) by (simp add: d)
  ultimately obtain st where "add_node_loop x rest (r1, vs @ [pos]) = Some st"
    using Cons.IH by blast
  then show ?case using pr by simp
qed

lemma add_node_returns:
  assumes "reachable r" "length (positions r) + nat (replicas_per_node r) \<le> 2 ^ 64"
  shows "\<exists>res r'. add_node r x = Some (res, r')"
proof -
  have wf: "ring_wf r" using assms(1) by (rule reachable_wf)
  have d: "dom (vnode_to_node r) = set (positions r)" using ring_wfD(4) [OF wf] by simp
  have "distinct (positions r)" using ring_wfD(3) [OF wf] by (simp add: strict_sorted_iff)
  then have c: "card (dom (vnode_to_node r)) = length (positions r)"
    by (simp add: d distinct_card)
  have "finite (dom (vnode_to_node r))" by (simp add: d)
  from add_node_loop_returns [OF this, of "[0..<nat (replicas_per_node r)]" x "[]"]
  obtain st where "add_node_loop x [0..<nat (replicas_per_node r)] (r, []) = Some st"
    using assms(2) c by auto
  then show ?thesis by (cases st) (simp add: add_node_def)
qed

section \<open>Facts about key placement\<close>

text \<open>
  In a well-formed ring the walk of \<open>get_nodes_for_key\<close> returns: within one turn around
  the ring it has seen every registered node.
\<close>

lemma find_vnode_index_bound:
  assumes "positions r \<noteq> []" "sorted (positions r)"
  shows "\<exists>idx. find_vnode_index r key_hash = Inr idx \<and> idx < length (positions r)"
proof -
  have "bisect_left (positions r) key_hash \<le> length (positions r)"
    using bisect_left_spec [OF assms(2), of key_hash] by simp
  then show ?thesis using assms(1) by (simp add: find_vnode_index_def Let_def)
qed

lemma ring_wf_nodes_card:
  assumes "ring_wf r"
  shows "card (set (list_nodes r)) = length (node_to_vnodes r)"
  using distinct_card [OF ring_wfD(5) [OF assms]] by (simp add: list_nodes_def)

lemma ring_wf_position_owner:
  assumes wf: "ring_wf r" and i: "i < length (positions r)"
  shows "\<exists>nd. vnode_to_node r (positions r ! i) = Some nd \<and> nd \<in> set (list_nodes r)"
proof -
  have "positions r ! i \<in> dom (vnode_to_node r)"
    using ring_wfD(4) [OF wf] i nth_mem by blast
  then obtain nd where nd: "vnode_to_node r (positions r ! i) = Some nd" by auto
  from ring_wf_owner [OF wf nd] have "map_of (node_to_vnodes r) nd \<noteq> None" by auto
  then have "nd \<in> set (list_nodes r)" by (simp add: list_nodes_def map_of_eq_None_iff)
  with nd show ?thesis by blast
qed

lemma ring_wf_node_position:
  assumes wf: "ring_wf r" and nd: "nd \<in> set (list_nodes r)"
  shows "\<exists>i<length (positions r). vnode_to_node r (positions r ! i) = Some nd"
proof -
  from nd obtain vs where vs: "map_of (node_to_vnodes r) nd = Some vs"
    by (metis list_nodes_def list.set_map map_of_eq_None_iff not_Some_eq)
  from ring_wf_owned(1) [OF wf vs] obtain p where p: "p \<in> set vs" by (cases vs) auto
  then have m: "vnode_to_node r p = Some nd" by (rule ring_wf_owned(2) [OF wf vs])
  then have "p \<in> set (positions r)" using ring_wfD(4) [OF wf] by auto
  then obtain i where "i < length (positions r)" "positions r ! i = p"
    by (auto simp: in_set_conv_nth)
  with m show ?thesis by auto
qed

lemma get_nodes_loop_returns:
  assumes wf: "ring_wf r"
    and idx: "idx < length (positions r)"
    and ch: "distinct chosen" "set chosen = seen" "seen \<subseteq> set (list_nodes r)"
      "int (length chosen) \<le> replication_factor r"
    and cover: "set (list_nodes r) \<subseteq> seen \<union>
       {nd. \<exists>j<m. vnode_to_node r (positions r ! ((idx + j) mod length (positions r))) = Some nd}"
  shows "\<exists>ns. get_nodes_loop r idx chosen seen = Some (Inr ns) \<and> distinct ns \<and>
           set ns \<subseteq> set (list_nodes r) \<and>
           length ns = min (nat (replication_factor r)) (length (node_to_vnodes r))"
  using idx ch cover
proof (induction m arbitrary: idx chosen seen)
  case 0
  then have "set (list_nodes r) = seen" by auto
  then have cs: "card seen = length (node_to_vnodes r)" using ring_wf_nodes_card [OF wf] by simp
  then have "get_nodes_loop r idx chosen seen = Some (Inr chosen)"
    by (subst get_nodes_loop.simps) simp
  moreover have "length chosen = card seen" using "0.prems"(2,3) distinct_card by fastforce
  ultimately show ?case using "0.prems"(2,3,4,5) cs by auto
next
  case (Suc m)
  let ?n = "length (positions r)"
  let ?N = "length (node_to_vnodes r)"
  have lc: "length chosen = card seen" using Suc.prems(2,3) distinct_card by fastforce
  have fin: "finite (set (list_nodes r))" by simp
  have cle: "card seen \<le> ?N"
    using card_mono [OF fin Suc.prems(4)] ring_wf_nodes_card [OF wf] by simp
  show ?case
  proof (cases "int (length chosen) < replication_factor r \<and> card seen < ?N")
    case False
    then have "get_nodes_loop r idx chosen seen = Some (Inr chosen)"
      by (subst get_nodes_loop.simps) (simp only: if_False)
    moreover have "length chosen = min (nat (replication_factor r)) ?N"
      using False lc cle Suc.prems(5) by auto
    ultimately show ?thesis using Suc.prems(2,3,4) by auto
  next
    case True
    from ring_wf_position_owner [OF wf Suc.prems(1)] obtain nd where
      nd: "vnode_to_node r (positions r ! idx) = Some nd" "nd \<in> set (list_nodes r)" by blast
    define idx' where "idx' = (idx + 1) mod ?n"
    have "0 < ?n" using Suc.prems(1) by arith
    then have idx': "idx' < ?n" unfolding idx'_def by (rule mod_less_divisor)
    have shift: "\<And>j. (idx' + j) mod ?n = (idx + Suc j) mod ?n"
      by (simp add: idx'_def mod_add_left_eq)
    have cov: "set (list_nodes r) \<subseteq> insert nd seen \<union>
       {nd'. \<exists>j<m. vnode_to_node r (positions r ! ((idx' + j) mod ?n)) = Some nd'}"
    proof
      fix y assume "y \<in> set (list_nodes r)"
      with Suc.prems(6) have "y \<in> seen \<or>
        (\<exists>j<Suc m. vnode_to_node r (positions r ! ((idx + j) mod ?n)) = Some y)" by auto
      then show "y \<in> insert nd seen \<union>
       {nd'. \<exists>j<m. vnode_to_node r (positions r ! ((idx' + j) mod ?n)) = Some nd'}"
      proof
        assume "y \<in> seen" then show ?thesis by simp
      next
        assume "\<exists>j<Suc m. vnode_to_node r (positions r ! ((idx + j) mod ?n)) = Some y"
        then obtain j where j: "j < Suc m"
          "vnode_to_node r (positions r ! ((idx + j) mod ?n)) = Some y" by blast
        show ?thesis
        proof (cases j)
          case 0
          with j(2) nd(1) Suc.prems(1) have "y = nd" by simp
          then show ?thesis by simp
        next
          case (Suc j')
          with j have "j' < m" "vnode_to_node r (positions r ! ((idx' + j') mod ?n)) = Some y"
            by (simp_all add: shift)
          then show ?thesis by blast
        qed
      qed
    qed
    show ?thesis
    proof (cases "nd \<in> seen")
      case False
      have step: "get_nodes_loop r idx chosen seen =
          get_nodes_loop r idx' (chosen @ [nd]) (insert nd seen)"
        using True Suc.prems(1) nd(1) False
        by (subst get_nodes_loop.simps) (simp add: idx'_def)
      have "\<exists>ns. get_nodes_loop r idx' (chosen @ [nd]) (insert nd seen) = Some (Inr ns) \<and>
           distinct ns \<and> set ns \<subseteq> set (list_nodes r) \<and>
           length ns = min (nat (replication_factor r)) ?N"
      proof (rule Suc.IH [OF idx' _ _ _ _ cov])
        show "distinct (chosen @ [nd])" using Suc.prems(2,3) False by simp
        show "set (chosen @ [nd]) = insert nd seen" using Suc.prems(3) by simp
        show "insert nd seen \<subseteq> set (list_nodes r)" using Suc.prems(4) nd(2) by simp
        show "int (length (chosen @ [nd])) \<le> replication_factor r" using True by simp
      qed
      with step show ?thesis by simp
    next
      case seen: True
      have step: "get_nodes_loop r idx chosen seen = get_nodes_loop r idx' chosen seen"
        using True Suc.prems(1) nd(1) seen
        by (subst get_nodes_loop.simps) (simp add: idx'_def)
      have "insert nd seen = seen" using seen by auto
      with cov have cov': "set (list_nodes r) \<subseteq> seen \<union>
       {nd'. \<exists>j<m. vnode_to_node r (positions r ! ((idx' + j) mod ?n)) = Some nd'}" by simp
      have "\<exists>ns. get_nodes_loop r idx' chosen seen = Some (Inr ns) \<and>
           distinct ns \<and> set ns \<subseteq> set (list_nodes r) \<and>
           length ns = min (nat (replication_factor r)) ?N"
        by (rule Suc.IH [OF idx' Suc.prems(2,3,4,5) cov'])
      with step show ?thesis by simp
    qed
  qed
qed

lemma walk_covers:
  assumes "idx < n" "i < (n::nat)"
  shows "\<exists>j<n. (idx + j) mod n = i"
proof -
  define j where "j = (i + n - idx) mod n"
  have "j < n" using assms by (simp add: j_def)
  moreover have "(idx + j) mod n = i"
  proof -
    have "(idx + j) mod n = (idx + (i + n - idx)) mod n"
      by (simp add: j_def mod_add_right_eq)
    also have "\<dots> = (i + n) mod n" using assms by simp
    also have "\<dots> = i" using assms by simp
    finally show ?thesis .
  qed
  ultimately show ?thesis by blast
qed

lemma get_nodes_for_key_returns:
  assumes wf: "ring_wf r" and ne: "positions r \<noteq> []"
  shows "\<exists>ns. get_nodes_for_key r key = Some (Inr ns) \<and> distinct ns \<and>
           set ns \<subseteq> set (list_nodes r) \<and>
           length ns = min (nat (replication_factor r)) (length (node_to_vnodes r))"
proof -
  have s: "sorted (positions r)" using ring_wfD(3) [OF wf] by (simp add: strict_sorted_iff)
  from find_vnode_index_bound [OF ne s] obtain idx where
    idx: "find_vnode_index r (hash r key) = Inr idx" "idx < length (positions r)" by blast
  have g: "get_nodes_for_key r key = get_nodes_loop r idx [] {}"
    using ne idx(1) by (simp add: get_nodes_for_key_def)
  have cover: "set (list_nodes r) \<subseteq> {} \<union>
       {nd. \<exists>j<length (positions r).
          vnode_to_node r (positions r ! ((idx + j) mod length (positions r))) = Some nd}"
  proof
    fix nd assume "nd \<in> set (list_nodes r)"
    from ring_wf_node_position [OF wf this] obtain i where
      i: "i < length (positions r)" "vnode_to_node r (positions r ! i) = Some nd" by blast
    from walk_covers [OF idx(2) i(1)] obtain j where
      "j < length (positions r)" "(idx + j) mod length (positions r) = i" by blast
    with i(2) show "nd \<in> {} \<union> {nd. \<exists>j<length (positions r).
          vnode_to_node r (positions r ! ((idx + j) mod length (positions r))) = Some nd}"
      by auto
  qed
  have rf: "int (length ([]::string list)) \<le> replication_factor r"
    using ring_wfD(2) [OF wf] by simp
  show ?thesis unfolding g
    by (rule get_nodes_loop_returns [OF wf idx(2) _ _ _ rf cover]) simp_all
qed

lemma ring_wf_nonempty:
  assumes wf: "ring_wf r"
  shows "list_nodes r \<noteq> [] \<longleftrightarrow> positions r \<noteq> []"
proof
  assume "list_nodes r \<noteq> []"
  then obtain nd where "nd \<in> set (list_nodes r)" by (cases "list_nodes r") auto
  from ring_wf_node_position [OF wf this] show "positions r \<noteq> []" by auto
next
  assume "positions r \<noteq> []"
  then have "0 < length (positions r)" by simp
  from ring_wf_position_owner [OF wf this] show "list_nodes r \<noteq> []" by auto
qed

lemma get_primary_node_returns:
  assumes wf: "ring_wf r" and ne: "positions r \<noteq> []"
  shows "\<exists>nd. get_primary_node r key = Some (Inr nd) \<and> nd \<in> set (list_nodes r)"
proof -
  from get_nodes_for_key_returns [OF wf ne, of key] obtain ns where
    ns: "get_nodes_for_key r key = Some (Inr ns)" "set ns \<subseteq> set (list_nodes r)"
    "length ns = min (nat (replication_factor r)) (length (node_to_vnodes r))" by blast
  have "list_nodes r \<noteq> []" using ring_wf_nonempty [OF wf] ne by simp
  then have "0 < length (node_to_vnodes r)" by (simp add: list_nodes_def)
  moreover have "0 < nat (replication_factor r)" using ring_wfD(2) [OF wf] by simp
  ultimately have "0 < length ns" using ns(3) by simp
  then obtain nd rest where "ns = nd # rest" by (cases ns) auto
  with ns(1,2) show ?thesis by (simp add: get_primary_node_def)
qed

lemma add_node_success:
  assumes "add_node r x = Some (Inr (), r')"
  shows "\<exists>vs. node_to_vnodes r' = AList.update x vs (node_to_vnodes r) \<and>
           length vs = nat (replicas_per_node r) \<and>
           set (positions r') = set (positions r) \<union> set vs"
proof -
  have new: "map_of (node_to_vnodes r) x = None"
    using assms by (auto simp: add_node_def split: if_splits)
  from assms new obtain r1 vs where
    loop: "add_node_loop x [0..<nat (replicas_per_node r)] (r, []) = Some (r1, vs)"
    and r': "r' = r1\<lparr>node_to_vnodes := AList.update x vs (node_to_vnodes r1)\<rparr>"
    by (auto simp: add_node_def split: option.splits)
  from add_node_loop_spec [OF loop] have
    "length vs = nat (replicas_per_node r)" "node_to_vnodes r1 = node_to_vnodes r"
    "set (positions r1) = set (positions r) \<union> set vs"
    by auto
  then show ?thesis by (auto simp: r')
qed

text \<open>The two counting loops, when every key has a primary node.\<close>

lemma sum_counter_incr:
  "sum_list (map snd (counter_incr cnt node)) = sum_list (map snd cnt) + 1"
  unfolding counter_incr_def by (induction cnt) auto

lemma distinct_counter_incr:
  "distinct (map fst cnt) \<Longrightarrow> distinct (map fst (counter_incr cnt node))"
  by (simp add: counter_incr_def distinct_update)

lemma key_distribution_loop_returns:
  assumes "\<And>k. \<exists>nd. get_primary_node r k = Some (Inr nd)"
  shows "\<exists>cnt'. key_distribution_loop r keys cnt = Some (Inr cnt') \<and>
           sum_list (map snd cnt') = sum_list (map snd cnt) + length keys \<and>
           (distinct (map fst cnt) \<longrightarrow> distinct (map fst cnt'))"
proof (induction keys arbitrary: cnt)
  case Nil
  show ?case by simp
next
  case (Cons k keys)
  from assms obtain nd where nd: "get_primary_node r k = Some (Inr nd)" by blast
  from Cons.IH [of "counter_incr cnt nd"] obtain cnt' where
    c: "key_distribution_loop r keys (counter_incr cnt nd) = Some (Inr cnt')"
    "sum_list (map snd cnt') = sum_list (map snd (counter_incr cnt nd)) + length keys"
    "distinct (map fst (counter_incr cnt nd)) \<longrightarrow> distinct (map fst cnt')" by blast
  have "key_distribution_loop r (k # keys) cnt = Some (Inr cnt')" using nd c(1) by simp
  moreover have "sum_list (map snd cnt') = sum_list (map snd cnt) + length (k # keys)"
    using c(2) by (simp add: sum_counter_incr)
  moreover have "distinct (map fst cnt) \<longrightarrow> distinct (map fst cnt')"
    using c(3) distinct_counter_incr by blast
  ultimately show ?case by blast
qed

lemma moved_keys_loop_returns:
  assumes "\<And>k. \<exists>nd. get_primary_node r k = Some (Inr nd)"
  shows "moved_keys_loop r keys om (moved, tot) =
           Some (Inr (moved + length (filter (key_moved r om) keys), tot + length keys))"
proof (induction keys arbitrary: moved tot)
  case Nil
  show ?case by simp
next
  case (Cons k keys)
  from assms obtain nd where nd: "get_primary_node r k = Some (Inr nd)" by blast
  have km: "key_moved r om k \<longleftrightarrow> om k \<noteq> Some nd"
    by (auto simp: key_moved_def nd split: option.splits)
  show ?case
  proof (cases "om k \<noteq> Some nd")
    case True
    then have "moved_keys_loop r (k # keys) om (moved, tot) =
        moved_keys_loop r keys om (moved + 1, tot + 1)" using nd by simp
    then show ?thesis using True km by (simp add: Cons.IH)
  next
    case False
    then have "moved_keys_loop r (k # keys) om (moved, tot) =
        moved_keys_loop r keys om (moved, tot + 1)" using nd by simp
    then show ?thesis using False km by (simp add: Cons.IH)
  qed
qed

text \<open>What a successful \<open>add_node\<close> leaves in the ring, in any ring state.\<close>

lemma add_node_replicas:
  assumes "add_node r x = Some (Inr (), r')"
  shows "x \<notin> set (list_nodes r) \<and>
    (\<exists>vs. map_of (node_to_vnodes r') x = Some vs \<and>
       length vs = nat (replicas_per_node r) \<and>
       (0 < replicas_per_node r \<longrightarrow> int (length vs) = replicas_per_node r) \<and>
       (\<forall>p\<in>set vs. vnode_to_node r' p = Some x) \<and>
       (\<forall>i<length vs. first_free (dom (vnode_to_node r) \<union> set (take i vs))
                         (hash r (vnode_key x i)) (vs ! i)))"
proof -
  have new: "map_of (node_to_vnodes r) x = None"
    using assms by (auto simp: add_node_def split: if_splits)
  then have a: "x \<notin> set (list_nodes r)" by (simp add: list_nodes_def map_of_eq_None_iff)
  from assms new obtain r1 vs where
    loop: "add_node_loop x [0..<nat (replicas_per_node r)] (r, []) = Some (r1, vs)"
    and r': "r' = r1\<lparr>node_to_vnodes := AList.update x vs (node_to_vnodes r1)\<rparr>"
    by (auto simp: add_node_def split: option.splits)
  from add_node_loop_spec [OF loop] have sp:
    "length vs = nat (replicas_per_node r)"
    "vnode_to_node r1 = (\<lambda>p. if p \<in> set vs then Some x else vnode_to_node r p)"
    "\<forall>j<length [0..<nat (replicas_per_node r)].
        first_free (dom (vnode_to_node r) \<union> set (take j vs))
          (hash r (vnode_key x ([0..<nat (replicas_per_node r)] ! j))) (vs ! j)"
    by auto
  have b: "map_of (node_to_vnodes r') x = Some vs" by (simp add: r' update_conv')
  have c: "\<forall>p\<in>set vs. vnode_to_node r' p = Some x" by (simp add: r' sp(2))
  have d: "\<forall>i<length vs. first_free (dom (vnode_to_node r) \<union> set (take i vs))
                         (hash r (vnode_key x i)) (vs ! i)"
    using sp(3) by (simp add: sp(1))
  have e: "0 < replicas_per_node r \<longrightarrow> int (length vs) = replicas_per_node r"
    by (simp add: sp(1))
  show ?thesis using a b c d e sp(1) by blast
qed

section \<open>Evaluating the example rings\<close>

lemmas eval_simps = upt_rec add_node_def place_replica_def probe.simps vnode_key_def
  str_nat.simps len_hash_def insort_right_def bisect_right_def bisect_right_loop.simps
  list_insert_def bisect_left_def bisect_left_loop.simps list_pop_def remove_node_def
  remove_vnode_def find_vnode_index_def get_nodes_for_key_def get_nodes_loop.simps
  get_primary_node_def key_distribution_def counter_incr_def moved_keys_ratio_def
  key_moved_def list_nodes_def

lemma construct_ring0: "construct 2 len_hash 2 = Inr ring0"
  by (simp add: construct_def ring0_def)

lemma add_node_ring0: "add_node ring0 ''AB'' = Some (Inr (), ring1)"
  by (simp add: ring0_def ring1_def eval_simps)

lemma add_node_ring1: "add_node ring1 ''A'' = Some (Inr (), ring2)"
  by (simp add: ring2_def ring1_def eval_simps)

lemma remove_node_ring2: "remove_node ring2 ''A'' = (Inr (), ring1)"
  by (simp add: ring2_def ring1_def eval_simps)

lemma reachable_ring0: "reachable ring0"
  by (rule reachable.init [OF construct_ring0])

lemma reachable_ring1: "reachable ring1"
  by (rule reachable.add [OF reachable_ring0 add_node_ring0])

lemma reachable_ring2: "reachable ring2"
  by (rule reachable.add [OF reachable_ring1 add_node_ring1])

section \<open>The claims\<close>

subsection \<open>Locating the clockwise successor\<close>

text \<open>
  C3. On an empty \<open>positions\<close> list \<open>_find_vnode_index\<close> raises the empty-ring error. On a
  non-empty sorted list it returns an index of the list: when some position is at least
  \<open>key_hash\<close>, the index of the first such position (every earlier one is below
  \<open>key_hash\<close>), and index 0 when \<open>key_hash\<close> is above every position.
\<close>

theorem find_vnode_index_spec:
  "(positions r = [] \<longrightarrow> find_vnode_index r key_hash = Inl EmptyRing) \<and>
   (positions r \<noteq> [] \<and> sorted (positions r) \<longrightarrow>
      (\<exists>idx. find_vnode_index r key_hash = Inr idx \<and> idx < length (positions r) \<and>
         (if \<exists>p\<in>set (positions r). key_hash \<le> p
          then key_hash \<le> positions r ! idx \<and> (\<forall>j<idx. positions r ! j < key_hash)
          else idx = 0)))"
proof (intro conjI impI)
  assume "positions r = []"
  then show "find_vnode_index r key_hash = Inl EmptyRing"
    by (simp add: find_vnode_index_def)
next
  assume a: "positions r \<noteq> [] \<and> sorted (positions r)"
  define i where "i = bisect_left (positions r) key_hash"
  have sp: "i \<le> length (positions r)" "\<forall>j<i. positions r ! j < key_hash"
    "\<forall>j. i \<le> j \<and> j < length (positions r) \<longrightarrow> key_hash \<le> positions r ! j"
    using bisect_left_spec [of "positions r" key_hash] a by (simp_all add: i_def)
  show "\<exists>idx. find_vnode_index r key_hash = Inr idx \<and> idx < length (positions r) \<and>
         (if \<exists>p\<in>set (positions r). key_hash \<le> p
          then key_hash \<le> positions r ! idx \<and> (\<forall>j<idx. positions r ! j < key_hash)
          else idx = 0)"
  proof (cases "i = length (positions r)")
    case True
    then have "\<forall>p\<in>set (positions r). p < key_hash"
      using sp(2) by (auto simp: in_set_conv_nth)
    then have "\<not> (\<exists>p\<in>set (positions r). key_hash \<le> p)" by fastforce
    moreover have "find_vnode_index r key_hash = Inr 0"
      using a True by (simp add: find_vnode_index_def i_def)
    ultimately show ?thesis using a by simp
  next
    case False
    then have il: "i < length (positions r)" using sp(1) by simp
    then have "key_hash \<le> positions r ! i" using sp(3) by simp
    moreover from this il have "\<exists>p\<in>set (positions r). key_hash \<le> p"
      using nth_mem by blast
    moreover have "find_vnode_index r key_hash = Inr i"
      using a False by (simp add: find_vnode_index_def i_def)
    ultimately show ?thesis using il sp(2) by simp
  qed
qed

theorem find_vnode_index_spec_witness:
  "find_vnode_index ring0 4 = Inl EmptyRing \<and>
   positions ring2 \<noteq> [] \<and> sorted (positions ring2) \<and>
   find_vnode_index ring2 4 = Inr 1 \<and> positions ring2 ! 1 = 4 \<and>
   find_vnode_index ring2 9 = Inr 0"
  using find_vnode_index_spec [of ring0 4] find_vnode_index_spec [of ring2 4]
    find_vnode_index_spec [of ring2 9]
  by (simp add: ring0_def ring2_def eval_simps)

subsection \<open>Errors of the two mutations\<close>

text \<open>
  C4. In every ring state, \<open>add_node\<close> of a node that is already registered raises the
  duplicate-node error and leaves the whole ring as it was, and \<open>remove_node\<close> of a node
  that is not registered raises the node-not-found error and leaves the whole ring as it
  was.
\<close>

theorem failed_mutation_keeps_ring:
  "(node_id \<in> set (list_nodes r) \<longrightarrow> add_node r node_id = Some (Inl DuplicateNode, r)) \<and>
   (node_id \<notin> set (list_nodes r) \<longrightarrow> remove_node r node_id = (Inl NodeNotFound, r))"
proof (intro conjI impI)
  assume "node_id \<in> set (list_nodes r)"
  then have "map_of (node_to_vnodes r) node_id \<noteq> None"
    by (simp add: list_nodes_def map_of_eq_None_iff)
  then show "add_node r node_id = Some (Inl DuplicateNode, r)"
    by (simp add: add_node_def)
next
  assume a: "node_id \<notin> set (list_nodes r)"
  then have "map_of (node_to_vnodes r) node_id = None"
    by (simp add: list_nodes_def map_of_eq_None_iff)
  moreover have "AList.delete node_id (node_to_vnodes r) = node_to_vnodes r"
    using a by (simp add: list_nodes_def)
  ultimately show "remove_node r node_id = (Inl NodeNotFound, r)"
    by (simp add: remove_node_def)
qed

theorem failed_mutation_keeps_ring_witness:
  "''AB'' \<in> set (list_nodes ring1) \<and>
   add_node ring1 ''AB'' = Some (Inl DuplicateNode, ring1) \<and>
   ''Z'' \<notin> set (list_nodes ring1) \<and> remove_node ring1 ''Z'' = (Inl NodeNotFound, ring1)"
  using failed_mutation_keeps_ring [of "''AB''" ring1] failed_mutation_keeps_ring [of "''Z''" ring1]
  by (simp add: list_nodes_def ring1_def)

subsection \<open>The key enters a lookup through its hash only\<close>

text \<open>
  C10. For a fixed ring and two keys with the same hash value, \<open>get_nodes_for_key\<close>
  behaves the same on both: the same result, the same error, or no return for either.
\<close>

theorem get_nodes_for_key_hash_only:
  "hash r k1 = hash r k2 \<Longrightarrow> get_nodes_for_key r k1 = get_nodes_for_key r k2"
  by (simp add: get_nodes_for_key_def)

theorem get_nodes_for_key_hash_only_witness:
  "hash ring2 ''abc'' = hash ring2 ''xyz'' \<and>
   get_nodes_for_key ring2 ''abc'' = get_nodes_for_key ring2 ''xyz'' \<and>
   get_nodes_for_key ring2 ''xyz'' = Some (Inr [''A'', ''AB''])"
proof -
  have h: "hash ring2 ''abc'' = hash ring2 ''xyz''"
    by (simp add: ring2_def len_hash_def)
  have "get_nodes_for_key ring2 ''xyz'' = Some (Inr [''A'', ''AB''])"
    by (simp add: ring2_def eval_simps)
  with h get_nodes_for_key_hash_only [OF h] show ?thesis by simp
qed

subsection \<open>The structural invariant\<close>

text \<open>
  C2. Every ring reachable from a freshly constructed one by any sequence of \<open>add_node\<close>
  and \<open>remove_node\<close> calls satisfies the structural invariant: \<open>positions\<close> is strictly
  increasing without duplicates, its elements are the keys of \<open>vnode_to_node\<close> and the
  union of the lists of \<open>node_to_vnodes\<close>, and a node is registered in \<open>node_to_vnodes\<close>
  exactly when it is a value of \<open>vnode_to_node\<close>. One more \<open>add_node\<close> or \<open>remove_node\<close>,
  successful or not, leaves a ring that satisfies it again; the queries return no ring.
\<close>

theorem reachable_ring_inv:
  assumes "reachable r"
  shows "ring_inv r \<and>
         (\<forall>node_id res r'. add_node r node_id = Some (res, r') \<longrightarrow> ring_inv r') \<and>
         (\<forall>node_id res r'. remove_node r node_id = (res, r') \<longrightarrow> ring_inv r')"
proof (intro conjI allI impI)
  show "ring_inv r" using assms by (intro ring_wf_inv reachable_wf)
next
  fix node_id res r' assume "add_node r node_id = Some (res, r')"
  with assms have "reachable r'" by (rule reachable.add)
  then show "ring_inv r'" by (intro ring_wf_inv reachable_wf)
next
  fix node_id res r' assume "remove_node r node_id = (res, r')"
  with assms have "reachable r'" by (rule reachable.remove)
  then show "ring_inv r'" by (intro ring_wf_inv reachable_wf)
qed

theorem reachable_ring_inv_witness:
  "reachable ring1 \<and> ring_inv ring1 \<and>
   add_node ring1 ''A'' = Some (Inr (), ring2) \<and> ring_inv ring2 \<and>
   remove_node ring2 ''A'' = (Inr (), ring1)"
  using reachable_ring_inv [OF reachable_ring1] reachable_ring1 add_node_ring1 remove_node_ring2
  by blast

subsection \<open>What \<open>add_node\<close> gives the node\<close>

text \<open>
  C5. In every ring state, after a successful \<open>add_node(x)\<close> (which only a node that was
  not registered gets) the entry of \<open>x\<close> in \<open>node_to_vnodes\<close> is a list of as many
  positions as \<open>range(replicas_per_node)\<close> has indices (\<open>replicas_per_node\<close> of them, the
  constructor admitting positive values only), each mapped to \<open>x\<close> in \<open>vnode_to_node\<close>;
  the position of replica \<open>i\<close> is the first candidate of linear probing from the hash of
  \<open>"x#i"\<close>, one step being \<open>+1\<close> modulo \<open>2^64\<close>, that is free of the positions the ring
  had and of the positions of the replicas before \<open>i\<close>. And the call does succeed: on
  every reachable ring where \<open>x\<close> is not registered and the \<open>2^64\<close> positions have room
  for the new replicas beside the ones in use, \<open>add_node(x)\<close> returns without an error,
  with a ring of which all this holds.
\<close>

theorem add_node_owns_replicas:
  "(add_node r x = Some (Inr (), r') \<longrightarrow>
      x \<notin> set (list_nodes r) \<and>
      (\<exists>vs. map_of (node_to_vnodes r') x = Some vs \<and>
         length vs = nat (replicas_per_node r) \<and>
         (0 < replicas_per_node r \<longrightarrow> int (length vs) = replicas_per_node r) \<and>
         (\<forall>p\<in>set vs. vnode_to_node r' p = Some x) \<and>
         (\<forall>i<length vs. first_free (dom (vnode_to_node r) \<union> set (take i vs))
                           (hash r (vnode_key x i)) (vs ! i)))) \<and>
   (reachable r \<and> x \<notin> set (list_nodes r) \<and>
    length (positions r) + nat (replicas_per_node r) \<le> 2 ^ 64 \<longrightarrow>
      (\<exists>r2 vs. add_node r x = Some (Inr (), r2) \<and>
         map_of (node_to_vnodes r2) x = Some vs \<and>
         int (length vs) = replicas_per_node r \<and>
         (\<forall>p\<in>set vs. vnode_to_node r2 p = Some x) \<and>
         (\<forall>i<length vs. first_free (dom (vnode_to_node r) \<union> set (take i vs))
                           (hash r (vnode_key x i)) (vs ! i))))"
  (is "(?ok \<longrightarrow> ?result) \<and> (?room \<longrightarrow> ?total)")
proof (rule conjI)
  show "?ok \<longrightarrow> ?result"
  proof (rule impI)
    assume ?ok
    then show ?result by (rule add_node_replicas)
  qed
next
  show "?room \<longrightarrow> ?total"
  proof (rule impI)
    assume a: ?room
    then have re: "reachable r"
      and room: "length (positions r) + nat (replicas_per_node r) \<le> 2 ^ 64"
      by simp_all
    have new: "map_of (node_to_vnodes r) x = None"
      using a by (simp add: list_nodes_def map_of_eq_None_iff)
    from add_node_returns [OF re room, of x] obtain res r2 where
      ret: "add_node r x = Some (res, r2)" by blast
    have "res = Inr ()" using ret new by (auto simp: add_node_def split: option.splits)
    with ret have ok: "add_node r x = Some (Inr (), r2)" by simp
    from add_node_replicas [OF ok] obtain vs where vs:
      "map_of (node_to_vnodes r2) x = Some vs"
      "0 < replicas_per_node r \<longrightarrow> int (length vs) = replicas_per_node r"
      "\<forall>p\<in>set vs. vnode_to_node r2 p = Some x"
      "\<forall>i<length vs. first_free (dom (vnode_to_node r) \<union> set (take i vs))
                             (hash r (vnode_key x i)) (vs ! i)"
      by blast
    have "0 < replicas_per_node r" by (rule ring_wfD(1) [OF reachable_wf [OF re]])
    with vs(2) have "int (length vs) = replicas_per_node r" by simp
    with ok vs(1,3,4) show ?total by blast
  qed
qed

theorem add_node_owns_replicas_witness:
  "reachable ring1 \<and> ''A'' \<notin> set (list_nodes ring1) \<and>
   length (positions ring1) + nat (replicas_per_node ring1) \<le> 2 ^ 64 \<and>
   add_node ring1 ''A'' = Some (Inr (), ring2) \<and>
   map_of (node_to_vnodes ring2) ''A'' = Some [3, 6] \<and>
   vnode_to_node ring2 3 = Some ''A'' \<and> vnode_to_node ring2 6 = Some ''A'' \<and>
   hash ring1 (vnode_key ''A'' 0) = 3 \<and> hash ring1 (vnode_key ''A'' 1) = 3 \<and>
   dom (vnode_to_node ring1) = {4, 5} \<and>
   first_free ({4, 5} \<union> set (take 1 [3, 6])) 3 6"
proof -
  have n: "''A'' \<notin> set (list_nodes ring1)" by (simp add: ring1_def list_nodes_def)
  have room: "length (positions ring1) + nat (replicas_per_node ring1) \<le> 2 ^ 64"
    by (simp add: ring1_def)
  from add_node_owns_replicas [of ring1 "''A''" ring2] reachable_ring1 n room
  obtain r2 vs where vs:
    "add_node ring1 ''A'' = Some (Inr (), r2)"
    "map_of (node_to_vnodes r2) ''A'' = Some vs"
    "\<forall>p\<in>set vs. vnode_to_node r2 p = Some ''A''"
    "\<forall>i<length vs. first_free (dom (vnode_to_node ring1) \<union> set (take i vs))
                         (hash ring1 (vnode_key ''A'' i)) (vs ! i)"
    by blast
  have r2: "r2 = ring2" using vs(1) add_node_ring1 by simp
  have v: "vs = [3, 6]" using vs(2) by (simp add: r2 ring2_def)
  have o: "vnode_to_node ring2 3 = Some ''A''" "vnode_to_node ring2 6 = Some ''A''"
    using vs(3) by (simp_all add: v r2)
  have h: "hash ring1 (vnode_key ''A'' 0) = 3" "hash ring1 (vnode_key ''A'' 1) = 3"
    by (simp_all add: ring1_def len_hash_def vnode_key_def str_nat.simps)
  have d: "dom (vnode_to_node ring1) = {4, 5}" by (auto simp: ring1_def)
  have "1 < length vs" using v by simp
  with vs(4) have "first_free (dom (vnode_to_node ring1) \<union> set (take 1 vs))
                         (hash ring1 (vnode_key ''A'' 1)) (vs ! 1)"
    by blast
  moreover have "hash ring1 (vnode_key ''A'' (Suc 0)) = 3" using h(2) by simp
  ultimately have "first_free ({4, 5} \<union> set (take 1 [3, 6])) 3 6"
    by (simp add: v d)
  with reachable_ring1 n room vs(1,2) r2 v o h d show ?thesis by simp
qed

subsection \<open>The replica list of a key\<close>

text \<open>
  C1. In every reachable ring with at least one registered node (such a ring has at
  least one virtual node) and for every key, \<open>get_nodes_for_key\<close> returns a list, and
  its length is the smaller of \<open>replication_factor\<close> and the number of distinct
  registered nodes.
\<close>

theorem get_nodes_for_key_length:
  assumes "reachable r" "list_nodes r \<noteq> []"
  shows "positions r \<noteq> [] \<and>
    (\<exists>ns. get_nodes_for_key r key = Some (Inr ns) \<and>
       int (length ns) = min (replication_factor r) (int (card (set (list_nodes r)))))"
proof -
  have wf: "ring_wf r" using assms(1) by (rule reachable_wf)
  have ne: "positions r \<noteq> []" using ring_wf_nonempty [OF wf] assms(2) by simp
  from get_nodes_for_key_returns [OF wf ne, of key] obtain ns where
    ns: "get_nodes_for_key r key = Some (Inr ns)"
    "length ns = min (nat (replication_factor r)) (length (node_to_vnodes r))" by blast
  have "0 < replication_factor r" by (rule ring_wfD(2) [OF wf])
  then have "int (length ns) = min (replication_factor r) (int (card (set (list_nodes r))))"
    using ns(2) ring_wf_nodes_card [OF wf] by simp
  with ne ns(1) show ?thesis by blast
qed

theorem get_nodes_for_key_length_witness:
  "reachable ring2 \<and> list_nodes ring2 \<noteq> [] \<and> replication_factor ring2 = 2 \<and>
   card (set (list_nodes ring2)) = 2 \<and>
   get_nodes_for_key ring2 ''kkkk'' = Some (Inr [''AB'', ''A'']) \<and>
   reachable ring1 \<and> list_nodes ring1 \<noteq> [] \<and> replication_factor ring1 = 2 \<and>
   card (set (list_nodes ring1)) = 1 \<and>
   get_nodes_for_key ring1 ''kkkk'' = Some (Inr [''AB''])"
proof -
  have a: "list_nodes ring2 \<noteq> []" "list_nodes ring1 \<noteq> []"
    by (simp_all add: ring2_def ring1_def list_nodes_def)
  have "get_nodes_for_key ring2 ''kkkk'' = Some (Inr [''AB'', ''A''])"
    "get_nodes_for_key ring1 ''kkkk'' = Some (Inr [''AB''])"
    "replication_factor ring2 = 2" "card (set (list_nodes ring2)) = 2"
    "replication_factor ring1 = 2" "card (set (list_nodes ring1)) = 1"
    by (simp_all add: ring2_def ring1_def eval_simps)
  then show ?thesis
    using get_nodes_for_key_length [OF reachable_ring2 a(1), of "''kkkk''"]
      get_nodes_for_key_length [OF reachable_ring1 a(2), of "''kkkk''"]
      reachable_ring2 reachable_ring1 a
    by simp
qed

text \<open>
  C8. In every reachable ring with at least one registered node and for every key, the
  list that \<open>get_nodes_for_key\<close> returns holds no node identifier twice, and every
  entry is a registered node.
\<close>

theorem get_nodes_for_key_distinct:
  assumes "reachable r" "list_nodes r \<noteq> []"
  shows "\<exists>ns. get_nodes_for_key r key = Some (Inr ns) \<and> distinct ns \<and>
           set ns \<subseteq> set (list_nodes r)"
proof -
  have wf: "ring_wf r" using assms(1) by (rule reachable_wf)
  have ne: "positions r \<noteq> []" using ring_wf_nonempty [OF wf] assms(2) by simp
  from get_nodes_for_key_returns [OF wf ne, of key] show ?thesis by blast
qed

theorem get_nodes_for_key_distinct_witness:
  "reachable ring2 \<and> list_nodes ring2 \<noteq> [] \<and>
   get_nodes_for_key ring2 ''kkkkkk'' = Some (Inr [''A'', ''AB'']) \<and>
   distinct [''A'', ''AB''] \<and> set [''A'', ''AB''] \<subseteq> set (list_nodes ring2)"
proof -
  have a: "list_nodes ring2 \<noteq> []" by (simp add: ring2_def list_nodes_def)
  have g: "get_nodes_for_key ring2 ''kkkkkk'' = Some (Inr [''A'', ''AB''])"
    by (simp add: ring2_def eval_simps)
  from get_nodes_for_key_distinct [OF reachable_ring2 a, of "''kkkkkk''"]
  have "distinct [''A'', ''AB''] \<and> set [''A'', ''AB''] \<subseteq> set (list_nodes ring2)"
    unfolding g by simp
  with reachable_ring2 a g show ?thesis by simp
qed

subsection \<open>The primary node\<close>

text \<open>
  C9. On a ring whose \<open>positions\<close> list is empty \<open>get_primary_node\<close> raises the
  empty-ring error, for every key. After one successful \<open>add_node(x)\<close> on a reachable
  ring without positions (a fresh ring, or one emptied again by removals),
  \<open>get_primary_node\<close> returns \<open>x\<close> for every key.
\<close>

theorem get_primary_node_emptiness:
  "(positions r = [] \<longrightarrow> get_primary_node r key = Some (Inl EmptyRing)) \<and>
   (reachable r \<and> positions r = [] \<and> add_node r x = Some (Inr (), r') \<longrightarrow>
      get_primary_node r' key = Some (Inr x))"
proof (intro conjI impI)
  assume "positions r = []"
  then show "get_primary_node r key = Some (Inl EmptyRing)"
    by (simp add: get_primary_node_def get_nodes_for_key_def)
next
  assume a: "reachable r \<and> positions r = [] \<and> add_node r x = Some (Inr (), r')"
  then have wf: "ring_wf r" by (intro reachable_wf) simp
  have "reachable r'" using a reachable.add by blast
  then have wf': "ring_wf r'" by (rule reachable_wf)
  have e: "node_to_vnodes r = []" using ring_wf_nonempty [OF wf] a by (simp add: list_nodes_def)
  from a add_node_success [of r x r'] obtain vs where
    vs: "node_to_vnodes r' = AList.update x vs (node_to_vnodes r)"
    "length vs = nat (replicas_per_node r)"
    "set (positions r') = set (positions r) \<union> set vs" by blast
  have l: "list_nodes r' = [x]" by (simp add: list_nodes_def vs(1) e)
  then have ne: "positions r' \<noteq> []" using ring_wf_nonempty [OF wf'] by simp
  from get_primary_node_returns [OF wf' ne, of key] l
  show "get_primary_node r' key = Some (Inr x)" by auto
qed

theorem get_primary_node_emptiness_witness:
  "positions ring0 = [] \<and> get_primary_node ring0 ''k'' = Some (Inl EmptyRing) \<and>
   reachable ring0 \<and> add_node ring0 ''AB'' = Some (Inr (), ring1) \<and>
   get_primary_node ring1 ''k'' = Some (Inr ''AB'')"
proof -
  have p: "positions ring0 = []" by (simp add: ring0_def)
  from get_primary_node_emptiness [of ring0 "''k''" "''AB''" ring1] p reachable_ring0 add_node_ring0
  show ?thesis by simp
qed

subsection \<open>The analytics helpers\<close>

text \<open>
  C7. In every reachable ring with at least one registered node and for every list of
  keys, empty or not, with or without repeated keys, \<open>key_distribution\<close> returns a
  counter (each node at most once in it) whose counts add up to the number of keys.
\<close>

theorem key_distribution_sum:
  assumes "reachable r" "list_nodes r \<noteq> []"
  shows "\<exists>cnt. key_distribution r keys = Some (Inr cnt) \<and> distinct (map fst cnt) \<and>
           sum_list (map snd cnt) = length keys"
proof -
  have wf: "ring_wf r" using assms(1) by (rule reachable_wf)
  have ne: "positions r \<noteq> []" using ring_wf_nonempty [OF wf] assms(2) by simp
  have "\<And>k. \<exists>nd. get_primary_node r k = Some (Inr nd)"
    using get_primary_node_returns [OF wf ne] by blast
  from key_distribution_loop_returns [OF this, of keys "[]"]
  show ?thesis by (auto simp: key_distribution_def)
qed

theorem key_distribution_sum_witness:
  "reachable ring2 \<and> list_nodes ring2 \<noteq> [] \<and>
   key_distribution ring2 [''kkkkkk'', ''k'', ''kkkkkk'', ''kkkk''] =
     Some (Inr [(''A'', 3), (''AB'', 1)]) \<and>
   sum_list (map snd [(''A'', 3::nat), (''AB'', 1)]) = length [''kkkkkk'', ''k'', ''kkkkkk'', ''kkkk'']"
proof -
  have a: "list_nodes ring2 \<noteq> []" by (simp add: ring2_def list_nodes_def)
  have g: "key_distribution ring2 [''kkkkkk'', ''k'', ''kkkkkk'', ''kkkk''] =
     Some (Inr [(''A'', 3), (''AB'', 1)])"
    by (simp add: ring2_def eval_simps)
  from key_distribution_sum [OF reachable_ring2 a, of "[''kkkkkk'', ''k'', ''kkkkkk'', ''kkkk'']"]
  have "sum_list (map snd [(''A'', 3::nat), (''AB'', 1)]) = length [''kkkkkk'', ''k'', ''kkkkkk'', ''kkkk'']"
    unfolding g by simp
  with reachable_ring2 a g show ?thesis by simp
qed

text \<open>
  C6. On any ring, \<open>moved_keys_ratio\<close> of the empty key list returns 0 and raises
  nothing. In every reachable ring with at least one registered node, for every list of
  keys and every old mapping it returns the number of moved keys divided by the number
  of keys (0 for no keys), a value between 0 and 1; a key is moved when the old mapping
  has no entry for it or an entry other than its primary node. The quotient is exact
  here; the float Python returns is the double nearest to it, which lies between 0 and
  1 as well, both being doubles.
\<close>

theorem moved_keys_ratio_spec:
  "moved_keys_ratio r [] old_mapping = Some (Inr 0) \<and>
   (reachable r \<and> list_nodes r \<noteq> [] \<longrightarrow>
      (\<exists>q. moved_keys_ratio r keys old_mapping = Some (Inr q) \<and> 0 \<le> q \<and> q \<le> 1 \<and>
         q = (if keys = [] then 0
              else real (length (filter (key_moved r old_mapping) keys)) / real (length keys))))"
proof (intro conjI impI)
  show "moved_keys_ratio r [] old_mapping = Some (Inr 0)"
    by (simp add: moved_keys_ratio_def)
next
  assume a: "reachable r \<and> list_nodes r \<noteq> []"
  then have wf: "ring_wf r" by (intro reachable_wf) simp
  have ne: "positions r \<noteq> []" using ring_wf_nonempty [OF wf] a by simp
  have "\<And>k. \<exists>nd. get_primary_node r k = Some (Inr nd)"
    using get_primary_node_returns [OF wf ne] by blast
  note l = moved_keys_loop_returns [OF this, of keys old_mapping 0 0]
  define mv where "mv = length (filter (key_moved r old_mapping) keys)"
  have le: "mv \<le> length keys" by (simp add: mv_def)
  have q: "moved_keys_ratio r keys old_mapping =
      Some (Inr (if keys = [] then 0 else real mv / real (length keys)))"
    using l by (simp add: moved_keys_ratio_def mv_def)
  have "0 \<le> (if keys = [] then 0 else real mv / real (length keys))" by simp
  moreover have "(if keys = [] then 0 else real mv / real (length keys)) \<le> 1"
    using le by (simp add: divide_le_eq)
  ultimately show "\<exists>q. moved_keys_ratio r keys old_mapping = Some (Inr q) \<and> 0 \<le> q \<and> q \<le> 1 \<and>
         q = (if keys = [] then 0
              else real (length (filter (key_moved r old_mapping) keys)) / real (length keys))"
    using q unfolding mv_def by blast
qed

theorem moved_keys_ratio_spec_witness:
  "moved_keys_ratio ring0 [] [''k'' \<mapsto> ''AB''] = Some (Inr 0) \<and>
   reachable ring2 \<and> list_nodes ring2 \<noteq> [] \<and>
   moved_keys_ratio ring2 [''kkkkkk'', ''k'', ''kkkk'', ''kkk''] [''k'' \<mapsto> ''AB'', ''kkkk'' \<mapsto> ''AB''] =
     Some (Inr (3 / 4)) \<and>
   filter (key_moved ring2 [''k'' \<mapsto> ''AB'', ''kkkk'' \<mapsto> ''AB''])
      [''kkkkkk'', ''k'', ''kkkk'', ''kkk''] = [''kkkkkk'', ''k'', ''kkk'']"
proof -
  have a: "list_nodes ring2 \<noteq> []" by (simp add: ring2_def list_nodes_def)
  have f: "filter (key_moved ring2 [''k'' \<mapsto> ''AB'', ''kkkk'' \<mapsto> ''AB''])
      [''kkkkkk'', ''k'', ''kkkk'', ''kkk''] = [''kkkkkk'', ''k'', ''kkk'']"
    by (simp add: ring2_def eval_simps)
  from moved_keys_ratio_spec [of ring2 "[''k'' \<mapsto> ''AB'', ''kkkk'' \<mapsto> ''AB'']"
      "[''kkkkkk'', ''k'', ''kkkk'', ''kkk'']"] reachable_ring2 a
  obtain q where q:
    "moved_keys_ratio ring2 [''kkkkkk'', ''k'', ''kkkk'', ''kkk'']
       [''k'' \<mapsto> ''AB'', ''kkkk'' \<mapsto> ''AB''] = Some (Inr q)"
    "q = (if [''kkkkkk'', ''k'', ''kkkk'', ''kkk''] = [] then 0
          else real (length (filter (key_moved ring2 [''k'' \<mapsto> ''AB'', ''kkkk'' \<mapsto> ''AB''])
                 [''kkkkkk'', ''k'', ''kkkk'', ''kkk''])) /
               real (length [''kkkkkk'', ''k'', ''kkkk'', ''kkk'']))"
    by blast
  have "q = 3 / 4" unfolding q(2) f by simp
  with q(1) have g: "moved_keys_ratio ring2 [''kkkkkk'', ''k'', ''kkkk'', ''kkk'']
       [''k'' \<mapsto> ''AB'', ''kkkk'' \<mapsto> ''AB''] = Some (Inr (3 / 4))" by simp
  from moved_keys_ratio_spec [of ring0 "[''k'' \<mapsto> ''AB'']" "[]"]
  have "moved_keys_ratio ring0 [] [''k'' \<mapsto> ''AB''] = Some (Inr 0)" by blast
  with reachable_ring2 a g f show ?thesis by simp
qed

end
